theory Spec2Isabelle
  imports Main "HOL-Library.Word"
begin

section \<open>The SQLite outbox protocol handler\<close>

text \<open>
  The repository holds two variants of the protocol handler \<open>SQLite::Protocol\<close>:
  \<^item> the \<^emph>\<open>guarded\<close> variant (\<open>src/unnamed/part_000\<close>), whose \<open>send()\<close> owns the busy flag
    under a mutex and catches every exception itself, with \<open>retry()\<close> and \<open>state()\<close>;
  \<^item> the \<^emph>\<open>timer\<close> variant (\<open>src/unnamed/part_001\<close>), whose \<open>send() const\<close> is the bare
    loop; the busy flag and the catch clauses live in the timer callback registered by
    the constructor and in the worker task it pushes.
  The loop body is the same in both. Informational output (\<open>info()\<close>, \<open>Logger::Trace\<close>,
  \<open>cout\<close>) is left out of the model; \<open>warning()\<close> and \<open>error()\<close> lines are kept as events.
\<close>

subsection \<open>Records, exceptions, events\<close>

text \<open>One queued request, as the four columns the loop reads with \<open>select.get(0..3, _)\<close>.\<close>

record row =
  rid :: int
  url :: string
  action :: string
  payload :: string

text \<open>
  What a C++ \<open>throw\<close> carries, as far as the catch clauses tell apart: an object derived
  from \<open>std::exception\<close> with its \<open>what()\<close> text, or anything else (only \<open>catch(...)\<close>
  takes it).
\<close>

datatype exn = Exception string | Thrown

text \<open>
  \<open>HTTP::Method\<close> is an enumeration of the udjat core library; the switch of the loop
  names \<open>HTTP::Get\<close> and \<open>HTTP::Post\<close> and sends every other enumerator to \<open>default:\<close>.
\<close>

datatype Method = Get | Post | Other

text \<open>
  The observable events of a run, in order: an HTTP call (method, url, body), an
  \<open>error()\<close> line, a \<open>warning()\<close> line, the execution of an SQL statement (by its
  template), the pacing pause, a timer reset (milliseconds), and the activation and
  deactivation of a published state (timer variant).
\<close>

datatype event =
    Http Method string string
  | Err string
  | Warn string
  | Sql string
  | Sleep nat
  | Timer nat
  | Activate string
  | Deactivate

text \<open>
  The collaborators outside the repository, as parameters. Each one that can throw
  returns the exception as a value.
  \<^item> \<open>prepare\<close>: the constructor \<open>Statement(sql)\<close>;
  \<^item> \<open>step_fault i\<close>: \<open>select.step()\<close> throwing at the \<open>i\<close>-th test of the loop condition;
  \<^item> \<open>exec_fault id\<close>: \<open>del.bind(1,id).exec()\<close> throwing;
  \<^item> \<open>exec\<close>: \<open>Database::getInstance().exec(sql)\<close>;
  \<^item> \<open>query\<close>: stepping a scalar statement over the stored rows and reading column 0;
  \<^item> \<open>mainloop i\<close>: the value of \<open>MainLoop::getInstance()\<close> converted to \<open>bool\<close> at the
    \<open>i\<close>-th test of the loop condition, \<open>verify i\<close>: \<open>Protocol::verify(this)\<close> there;
  \<^item> \<open>Client i\<close>: the constructor \<open>HTTP::Client(url)\<close> in the \<open>i\<close>-th iteration of the
    loop; \<open>client_get i\<close>, \<open>client_post i\<close>: the two calls there (the same request may
    succeed in one iteration and fail in another);
  \<^item> \<open>MethodFactory\<close>: \<open>HTTP::MethodFactory(name)\<close>, a lookup by name;
  \<^item> \<open>systemservice\<close>: whether \<open>SystemService::getInstance()\<close> is non-null.
\<close>

record env =
  prepare :: "string \<Rightarrow> exn option"
  step_fault :: "nat \<Rightarrow> exn option"
  exec_fault :: "int \<Rightarrow> exn option"
  exec :: "string \<Rightarrow> exn option"
  query :: "string \<Rightarrow> row list \<Rightarrow> exn + 64 word"
  mainloop :: "nat \<Rightarrow> bool"
  verify :: "nat \<Rightarrow> bool"
  Client :: "nat \<Rightarrow> string \<Rightarrow> exn option"
  MethodFactory :: "string \<Rightarrow> exn + Method"
  client_get :: "nat \<Rightarrow> string \<Rightarrow> exn + string"
  client_post :: "nat \<Rightarrow> string \<Rightarrow> string \<Rightarrow> exn + string"
  systemservice :: bool

text \<open>
  The members of \<open>SQLite::Protocol\<close> that are fixed by the constructor: the four SQL
  templates (\<open>pending\<close> is tested as \<open>pending && *pending\<close>, so it is kept nullable), the
  pause \<open>send_delay\<close> (\<open>retry.delay\<close> in the timer variant) and the other \<open>retry\<close>
  settings of the timer variant.
\<close>

record protocol =
  ins :: string
  del :: string
  select :: string
  pending :: "string option"
  send_delay :: nat
  retry_interval :: nat
  retry_when_busy :: nat
  retry_notify :: bool

text \<open>
  What changes while the handler runs: the member \<open>busy\<close>, the stored rows, the events
  so far, and \<open>retry.state\<close> (the value of the published \<open>SQLState\<close>, timer variant).
\<close>

record state =
  busy :: bool
  queue :: "row list"
  trace :: "event list"
  retry_state :: "64 word option"

subsection \<open>The queue store\<close>

text \<open>
  The classes \<open>Statement\<close> and \<open>Database\<close> (\<open>udjat/sqlite/statement.h\<close>,
  \<open>udjat/sqlite/database.h\<close>) and the SQL templates of the configuration are not among
  the sources. The store is a list of rows; the three statements act on it as section
  4.1 of the specification says.
\<close>

text \<open>
  Modelled from the spec: the select template and \<open>Statement::step\<close> on it
  (\<open>ScanPending\<close>): the pending rows in ascending id order.
\<close>

definition ScanPending :: "row list \<Rightarrow> row list" where
  "ScanPending tbl = sort_key rid tbl"

text \<open>
  Modelled from the spec: the delete template with the id bound and executed
  (\<open>Delete(id)\<close>): the row with that id is removed; an absent id is no error.
\<close>

definition Delete :: "int \<Rightarrow> row list \<Rightarrow> row list" where
  "Delete i tbl = filter (\<lambda>r. rid r \<noteq> i) tbl"

text \<open>
  Modelled from the spec: the insert template executed by the worker of
  \<open>WorkerFactory\<close> (\<open>Insert(record)\<close>), here for the rows \<open>rs\<close> one after the other: they
  are added to the store.
\<close>

definition Insert :: "row list \<Rightarrow> row list \<Rightarrow> row list" where
  "Insert rs tbl = tbl @ rs"

text \<open>
  Modelled from the spec: \<open>Statement::step\<close> on the select statement, as the SQLite
  call of that name. The cursor is \<open>None\<close> when the statement is fresh or has been reset,
  and \<open>Some rs\<close> when it stands on the head of \<open>rs\<close>. Stepping a fresh statement runs the
  query on the rows stored at that moment ("each call opens a fresh cursor"); stepping
  an open cursor moves on within the rows it was opened on ("the cursor was opened
  before the insert"). The step returns the cursor reached: \<open>SQLITE_ROW\<close> when it is
  non-empty.
\<close>

definition step :: "row list \<Rightarrow> row list option \<Rightarrow> row list" where
  "step tbl cur = (case cur of None \<Rightarrow> ScanPending tbl | Some rs \<Rightarrow> tl rs)"

text \<open>
  Modelled from the spec: \<open>Statement::reset\<close>, as the SQLite call of that name: the
  statement is ready to be executed again, its cursor is gone.
\<close>

definition reset :: "row list option \<Rightarrow> row list option" where
  "reset cur = None"

subsection \<open>One iteration of the delivery loop\<close>

text \<open>
  The text of the \<open>error()\<close> line of the \<open>default:\<close> label, and the HTTP part of an
  iteration (\<open>HTTP::Client client(url)\<close> and the switch on
  \<open>HTTP::MethodFactory(action.c_str())\<close>) in the \<open>i\<close>-th iteration: the events it leaves
  and the exception that ends it, if any.
\<close>

definition unexpected_verb :: "string \<Rightarrow> string" where
  "unexpected_verb a =
     ''Unexpected verb '' @ [CHR 0x27] @ a @ [CHR 0x27] @ '' sending queued request, ignoring''"

definition deliver :: "env \<Rightarrow> nat \<Rightarrow> row \<Rightarrow> event list \<times> exn option" where
  "deliver env i r =
     (case Client env i (url r) of
        Some e \<Rightarrow> ([], Some e)
      | None \<Rightarrow>
         (case MethodFactory env (action r) of
            Inl e \<Rightarrow> ([], Some e)
          | Inr Get \<Rightarrow>
             (case client_get env i (url r) of
                Inl e \<Rightarrow> ([Http Get (url r) []], Some e)
              | Inr response \<Rightarrow> ([Http Get (url r) []], None))
          | Inr Post \<Rightarrow>
             (case client_post env i (url r) (payload r) of
                Inl e \<Rightarrow> ([Http Post (url r) (payload r)], Some e)
              | Inr response \<Rightarrow> ([Http Post (url r) (payload r)], None))
          | Inr Other \<Rightarrow> ([Err (unexpected_verb (action r))], None)))"

text \<open>
  The body of the \<open>while\<close>: the HTTP part, then \<open>del.bind(1,id).exec()\<close> and the pause.
  The two \<open>reset()\<close> calls are in \<open>loop\<close> below, where the cursor is.
\<close>

definition iteration ::
  "env \<Rightarrow> protocol \<Rightarrow> nat \<Rightarrow> row \<Rightarrow> state \<Rightarrow> exn option \<times> state" where
  "iteration env p i r st =
     (case deliver env i r of
        (evs, Some e) \<Rightarrow> (Some e, st\<lparr>trace := trace st @ evs\<rparr>)
      | (evs, None) \<Rightarrow>
         (case exec_fault env (rid r) of
            Some e \<Rightarrow> (Some e, st\<lparr>trace := trace st @ evs\<rparr>)
          | None \<Rightarrow>
             (None, st\<lparr>queue := Delete (rid r) (queue st),
                        trace := trace st @ evs @ [Sql (del p), Sleep (send_delay p)]\<rparr>)))"

lemma iteration_queue:
  "iteration env p i r st = (None, st') \<Longrightarrow> queue st' = Delete (rid r) (queue st)"
  by (auto simp: iteration_def split: prod.splits option.splits)

lemma length_Delete_le: "length (Delete i tbl) \<le> length tbl"
  by (simp add: Delete_def)

lemma length_Delete_less: "r \<in> set tbl \<Longrightarrow> length (Delete (rid r) tbl) < length tbl"
  unfolding Delete_def by (rule length_filter_less [of r]) simp_all

subsection \<open>The delivery loop\<close>

text \<open>
  \<open>while(select.step() == SQLITE_ROW && mainloop [&& Protocol::verify(this)])\<close>.
  \<open>chk i\<close> is the part of the condition after the step, at its \<open>i\<close>-th test; the body
  run after that test is the \<open>i\<close>-th iteration. \<open>arr\<close> lists,
  iteration by iteration, the rows that other threads insert (through the worker of
  \<open>WorkerFactory\<close>) while that iteration runs; they are in the store when the iteration
  has ended. \<open>cur\<close> is the cursor of the local statement \<open>select\<close>.
\<close>

function loop ::
  "env \<Rightarrow> (nat \<Rightarrow> bool) \<Rightarrow> protocol \<Rightarrow> nat \<Rightarrow> row list list \<Rightarrow> row list option \<Rightarrow> state
     \<Rightarrow> exn option \<times> state" where
  "loop env chk p i arr cur st =
     (case step_fault env i of
        Some e \<Rightarrow> (Some e, st)
      | None \<Rightarrow>
         (case step (queue st) cur of
            [] \<Rightarrow> (None, st\<lparr>trace := trace st @ [Sql (select p)]\<rparr>)
          | r # rs \<Rightarrow>
             if \<not> chk i then (None, st\<lparr>trace := trace st @ [Sql (select p)]\<rparr>)
             else
               (case iteration env p i r (st\<lparr>trace := trace st @ [Sql (select p)]\<rparr>) of
                  (Some e, st') \<Rightarrow> (Some e, st')
                | (None, st') \<Rightarrow>
                   loop env chk p (Suc i) (tl arr) (reset (Some (r # rs)))
                     (st'\<lparr>queue := Insert (case arr of [] \<Rightarrow> [] | a # _ \<Rightarrow> a) (queue st')\<rparr>))))"
  by pat_completeness auto
termination
proof (relation "measure (\<lambda>(env, chk, p, i, arr, cur, st).
          2 * (length (queue st) + sum_list (map length arr)) + (if cur = None then 0 else 1))",
       goal_cases)
  case 1
  show ?case by simp
next
  case (2 env chk p i arr cur st r rs x st')
  have q: "queue st' = Delete (rid r) (queue st)"
    using 2 iteration_queue [of env p i r "st\<lparr>trace := trace st @ [Sql (select p)]\<rparr>" st']
    by simp
  have le: "length (queue st') \<le> length (queue st)"
    by (simp add: q length_Delete_le)
  have lt: "cur = None \<Longrightarrow> length (queue st') < length (queue st)"
  proof -
    assume "cur = None"
    with 2 have "r \<in> set (ScanPending (queue st))" by (simp add: step_def)
    then have "r \<in> set (queue st)" by (simp add: ScanPending_def)
    then show ?thesis by (simp add: q length_Delete_less)
  qed
  show ?case
    using le lt by (cases arr; cases cur) (auto simp: Insert_def reset_def)
qed

subsection \<open>The sweep and its entry points\<close>

text \<open>
  The statements both variants share: \<open>Statement del(this->del); Statement
  select(this->select);\<close> and the loop. In the timer variant this is all of
  \<open>send() const\<close>; in the guarded variant it is the \<open>try\<close> block of \<open>send()\<close>.
\<close>

definition sweep ::
  "env \<Rightarrow> (nat \<Rightarrow> bool) \<Rightarrow> protocol \<Rightarrow> row list list \<Rightarrow> state \<Rightarrow> exn option \<times> state" where
  "sweep env chk p arr st =
     (case prepare env (del p) of
        Some e \<Rightarrow> (Some e, st)
      | None \<Rightarrow>
         (case prepare env (select p) of
            Some e \<Rightarrow> (Some e, st)
          | None \<Rightarrow> loop env chk p 0 arr None st))"

text \<open>
  The two blocks of \<open>send()\<close> that hold \<open>lock_guard<mutex> lock(guard)\<close>, guarded
  variant. The first tests and sets \<open>busy\<close> and tells whether the caller goes on; the
  second clears it. Each runs with the mutex held, so each is one step for every other
  thread that takes the same mutex.
\<close>

definition acquire :: "state \<Rightarrow> bool \<times> state" where
  "acquire st = (if busy st then (False, st) else (True, st\<lparr>busy := True\<rparr>))"

definition release :: "state \<Rightarrow> state" where
  "release st = st\<lparr>busy := False\<rparr>"

text \<open>
  \<open>SQLite::Protocol::send()\<close>, guarded variant: the test and set of \<open>busy\<close>, the \<open>try\<close>
  block with its two catch clauses, and the reset of \<open>busy\<close>. The first component of
  the result is the exception that leaves the function, if any.
\<close>

definition send :: "env \<Rightarrow> protocol \<Rightarrow> row list list \<Rightarrow> state \<Rightarrow> exn option \<times> state" where
  "send env p arr st =
     (case acquire st of
        (False, st0) \<Rightarrow> (None, st0)
      | (True, st0) \<Rightarrow>
         (case sweep env (\<lambda>i. mainloop env i \<and> verify env i) p arr st0 of
            (None, st') \<Rightarrow> (None, release st')
          | (Some (Exception w), st') \<Rightarrow>
              (None, release
                 (st'\<lparr>trace := trace st' @ [Warn (''Error sending queued message: '' @ w)]\<rparr>))
          | (Some Thrown, st') \<Rightarrow>
              (None, release
                 (st'\<lparr>trace := trace st' @ [Warn ''Unexpected error sending queued messages'']\<rparr>))))"

text \<open>
  \<open>SQLite::Protocol::retry()\<close>, guarded variant: \<open>send()\<close> in a \<open>try\<close> with the single
  clause \<open>catch(const std::exception &e)\<close>; it returns \<open>false\<close>. Anything else thrown by
  \<open>send()\<close> would leave \<open>retry()\<close>.
\<close>

definition retry ::
  "env \<Rightarrow> protocol \<Rightarrow> row list list \<Rightarrow> state \<Rightarrow> (exn + bool) \<times> state" where
  "retry env p arr st =
     (case send env p arr st of
        (None, st') \<Rightarrow> (Inr False, st')
      | (Some (Exception w), st') \<Rightarrow> (Inr False, st'\<lparr>trace := trace st' @ [Err w]\<rparr>)
      | (Some Thrown, st') \<Rightarrow> (Inl Thrown, st'))"

text \<open>
  \<open>SQLite::Protocol::send() const\<close>, timer variant: the bare sweep; its loop condition
  is \<open>select.step() == SQLITE_ROW && mainloop\<close>.
\<close>

definition send_const ::
  "env \<Rightarrow> protocol \<Rightarrow> row list list \<Rightarrow> state \<Rightarrow> exn option \<times> state" where
  "send_const env p arr st = sweep env (mainloop env) p arr st"

subsection \<open>Pending count and status\<close>

text \<open>The test \<open>pending && *pending\<close>.\<close>

definition configured :: "string option \<Rightarrow> bool" where
  "configured t = (case t of None \<Rightarrow> False | Some sql \<Rightarrow> sql \<noteq> [])"

text \<open>
  \<open>SQLite::Protocol::count()\<close> (the same in both variants), with the SQL statements it
  executes. The statement is prepared, stepped and read only under the test.
\<close>

definition count :: "env \<Rightarrow> protocol \<Rightarrow> row list \<Rightarrow> (exn + 64 word) \<times> event list" where
  "count env p tbl =
     (case pending p of
        None \<Rightarrow> (Inr 0, [])
      | Some sql \<Rightarrow>
         if sql = [] then (Inr 0, [])
         else
           (case prepare env sql of
              Some e \<Rightarrow> (Inl e, [])
            | None \<Rightarrow>
               (case query env sql tbl of
                  Inl e \<Rightarrow> (Inl e, [Sql sql])
                | Inr n \<Rightarrow> (Inr n, [Sql sql]))))"

text \<open>\<open>std::to_string\<close> on an unsigned and on a signed integer: the decimal numeral.\<close>

definition digit :: "nat \<Rightarrow> char" where
  "digit d = ''0123456789'' ! d"

fun dec :: "nat \<Rightarrow> string" where
  "dec n = (if n < 10 then [digit n] else dec (n div 10) @ [digit (n mod 10)])"

definition to_string :: "int \<Rightarrow> string" where
  "to_string i = (if i < 0 then CHR ''-'' # dec (nat (- i)) else dec (nat i))"

text \<open>The number a string of decimal digits denotes.\<close>

definition numeral_of :: "string \<Rightarrow> nat" where
  "numeral_of cs = foldl (\<lambda>n c. 10 * n + (of_char c - 48)) 0 cs"

text \<open>
  \<open>Logger::Message(fmt, arg)\<close> of the udjat core library with one argument: the format
  with its first \<open>{}\<close> replaced by the argument's text.
\<close>

fun Message :: "string \<Rightarrow> string \<Rightarrow> string" where
  "Message [] a = []"
| "Message [c] a = [c]"
| "Message (c # d # cs) a =
     (if c = CHR ''{'' \<and> d = CHR ''}'' then a @ cs else c # Message (d # cs) a)"

text \<open>The \<open>Level\<close> enumerators the handler uses, and what an \<open>Abstract::State\<close> shows.\<close>

datatype Level = unimportant | warning | ready

record Abstract_State =
  state_name :: string
  state_level :: Level
  summary :: string

text \<open>
  \<open>SQLite::Protocol::state()\<close>, guarded variant, on the member \<open>value\<close>. The local class
  \<open>State\<close> takes the value as \<open>uint64_t\<close>. The gettext macro \<open>_( )\<close> is taken as the
  identity (no translation catalogue).
\<close>

definition state :: "protocol \<Rightarrow> 64 word \<Rightarrow> Abstract_State" where
  "state p v =
     (if configured (pending p) then
        (if v = 0 then
           \<lparr>state_name = ''empty'', state_level = unimportant,
            summary = ''Output queue is empty''\<rparr>
         else if v = 1 then
           \<lparr>state_name = ''pending'', state_level = warning,
            summary = ''One pending request in the output queue''\<rparr>
         else
           \<lparr>state_name = ''pending'', state_level = warning,
            summary = Message ''{} pending requests in the output queue'' (dec (unat v))\<rparr>)
      else
        \<lparr>state_name = ''none'', state_level = unimportant, summary = ''No pending requests''\<rparr>)"

text \<open>The local class \<open>SQLState\<close> of the timer variant, on an \<open>int64_t\<close>.\<close>

definition SQLState :: "64 word \<Rightarrow> Abstract_State" where
  "SQLState v =
     \<lparr>state_name = ''SQLite'', state_level = ready,
      summary =
        (if v = 0 then ''No pending messages''
         else if v = 1 then ''1 pending message''
         else to_string (sint v) @ '' pending messages'')\<rparr>"

subsection \<open>The timer variant: timer callback and worker task\<close>

text \<open>
  The \<open>try\<close> statement of the worker task: \<open>send()\<close> with the clauses
  \<open>catch(const std::exception &e)\<close> and \<open>catch(...)\<close>.
\<close>

definition worker_try ::
  "env \<Rightarrow> protocol \<Rightarrow> row list list \<Rightarrow> state \<Rightarrow> exn option \<times> state" where
  "worker_try env p arr st =
     (case send_const env p arr st of
        (None, st') \<Rightarrow> (None, st')
      | (Some (Exception w), st') \<Rightarrow>
          (None, st'\<lparr>trace := trace st' @
             [Warn (''Error '' @ [CHR 0x27] @ w @ [CHR 0x27] @ '' while sending queued requests'')]\<rparr>)
      | (Some Thrown, st') \<Rightarrow>
          (None, st'\<lparr>trace := trace st' @ [Warn ''Unexpected error while sending queued requests'']\<rparr>))"

text \<open>
  The block "Do we need to change state?" of the worker task. The call \<open>count()\<close> in
  \<open>make_shared<SQLState>(count())\<close> stands in no \<open>try\<close>.
\<close>

definition worker_notify :: "env \<Rightarrow> protocol \<Rightarrow> state \<Rightarrow> exn option \<times> state" where
  "worker_notify env p st =
     (if retry_notify p \<and> configured (pending p) then
        (if systemservice env then
           (let st1 = (case retry_state st of
                         None \<Rightarrow> st
                       | Some _ \<Rightarrow> st\<lparr>trace := trace st @ [Deactivate]\<rparr>)
            in case count env p (queue st1) of
                 (Inl e, evs) \<Rightarrow> (Some e, st1\<lparr>trace := trace st1 @ evs\<rparr>)
               | (Inr n, evs) \<Rightarrow>
                   (None, st1\<lparr>retry_state := Some n,
                               trace := trace st1 @ evs @ [Activate (summary (SQLState n))]\<rparr>))
         else (None, st))
      else (None, st))"

text \<open>
  The task the timer callback pushes to the thread pool: the \<open>try\<close> statement, the
  notification, then "Schedule next retry" and \<open>busy = false\<close>.
\<close>

definition worker ::
  "env \<Rightarrow> protocol \<Rightarrow> row list list \<Rightarrow> state \<Rightarrow> exn option \<times> state" where
  "worker env p arr st =
     (case worker_try env p arr st of
        (Some e, st1) \<Rightarrow> (Some e, st1)
      | (None, st1) \<Rightarrow>
         (case worker_notify env p st1 of
            (Some e, st2) \<Rightarrow> (Some e, st2)
          | (None, st2) \<Rightarrow>
              (None, st2\<lparr>trace := trace st2 @ [Timer (retry_interval p)], busy := False\<rparr>)))"

text \<open>
  The timer callback: re-arm at \<open>retry.when_busy\<close>, then test and set \<open>busy\<close>. The first
  component tells whether a worker task was pushed.
\<close>

definition timer_callback :: "protocol \<Rightarrow> state \<Rightarrow> bool \<times> state" where
  "timer_callback p st =
     (let st1 = st\<lparr>trace := trace st @ [Timer (retry_when_busy p)]\<rparr>
      in if \<not> busy st1 then (True, st1\<lparr>busy := True\<rparr>) else (False, st1))"

subsection \<open>Construction\<close>

text \<open>
  The configuration node as the constructor reads it: an element with its text and its
  child elements in document order.
\<close>

datatype xml_node = Node (node_name: string) (node_text: string) (node_children: "xml_node list")

text \<open>
  The string helpers of the udjat core library, as parameters: \<open>String::strip\<close>,
  \<open>String::expand\<close> on a node, and \<open>Object::getAttribute\<close> for the unsigned attribute
  \<open>retry-delay\<close> (the default it falls back to is a member initialiser of the header).
\<close>

record lib =
  strip :: "string \<Rightarrow> string"
  expand :: "xml_node \<Rightarrow> string \<Rightarrow> string"
  getAttribute :: "xml_node \<Rightarrow> string \<Rightarrow> nat"

text \<open>\<open>node.child(name)\<close>: the first child element of that name.\<close>

definition child :: "xml_node \<Rightarrow> string \<Rightarrow> xml_node option" where
  "child node nm = find (\<lambda>c. node_name c = nm) (node_children node)"

text \<open>
  The static function \<open>child_value(node, name, required)\<close>, after the text of the
  \<open>runtime_error\<close> it throws.
\<close>

definition child_not_found :: "string \<Rightarrow> string" where
  "child_not_found nm = ''Required child '' @ [CHR 0x27] @ nm @ [CHR 0x27] @ '' not found''"

definition child_value :: "lib \<Rightarrow> xml_node \<Rightarrow> string \<Rightarrow> bool \<Rightarrow> exn + string" where
  "child_value l node nm required =
     (case child node nm of
        None \<Rightarrow> if required then Inl (Exception (child_not_found nm)) else Inr []
      | Some c \<Rightarrow> Inr (expand l node (strip l (node_text c))))"

text \<open>
  The loop over the \<open>init\<close> children: each statement is stripped, expanded on its own
  element and executed; the first failing \<open>exec\<close> throws.
\<close>

definition init_sql :: "lib \<Rightarrow> xml_node \<Rightarrow> string" where
  "init_sql l c = expand l c (strip l (node_text c))"

fun init_loop :: "lib \<Rightarrow> env \<Rightarrow> xml_node list \<Rightarrow> exn option \<times> event list" where
  "init_loop l env [] = (None, [])"
| "init_loop l env (c # cs) =
     (case exec env (init_sql l c) of
        Some e \<Rightarrow> (Some e, [])
      | None \<Rightarrow> (case init_loop l env cs of (x, evs) \<Rightarrow> (x, Sql (init_sql l c) # evs)))"

text \<open>
  The constructor \<open>SQLite::Protocol::Protocol(node)\<close> of the guarded variant: the four
  member initialisers in the order of the initialiser list, \<open>send_delay\<close>, and the
  \<open>init\<close> statements. \<open>Inl\<close> is the exception that leaves the constructor: no object
  exists then. The settings of the timer variant are not read here.
\<close>

definition Protocol :: "lib \<Rightarrow> env \<Rightarrow> xml_node \<Rightarrow> (exn + protocol) \<times> event list" where
  "Protocol l env node =
     (case child_value l node ''insert'' True of
        Inl e \<Rightarrow> (Inl e, [])
      | Inr i \<Rightarrow>
         (case child_value l node ''delete'' True of
            Inl e \<Rightarrow> (Inl e, [])
          | Inr d \<Rightarrow>
             (case child_value l node ''select'' True of
                Inl e \<Rightarrow> (Inl e, [])
              | Inr s \<Rightarrow>
                 (case child_value l node ''pending'' False of
                    Inl e \<Rightarrow> (Inl e, [])
                  | Inr pnd \<Rightarrow>
                     (case init_loop l env
                             (filter (\<lambda>c. node_name c = ''init'') (node_children node)) of
                        (Some e, evs) \<Rightarrow> (Inl e, evs)
                      | (None, evs) \<Rightarrow>
                          (Inr \<lparr>ins = i, del = d, select = s, pending = Some pnd,
                                send_delay = getAttribute l node ''retry-delay'',
                                retry_interval = 0, retry_when_busy = 0,
                                retry_notify = False\<rparr>, evs))))))"

subsection \<open>Concurrent attempts\<close>

text \<open>
  What happens to the state while an attempt sweeps, one step at a time: the sweeping
  thread runs an iteration on the first row of a fresh scan, or logs; another thread
  inserts rows.
\<close>

inductive sweep_step :: "env \<Rightarrow> protocol \<Rightarrow> state \<Rightarrow> state \<Rightarrow> bool" for env p where
  iterate:
    "step (queue st) None = r # rs \<Longrightarrow> iteration env p i r st = (x, st') \<Longrightarrow>
     sweep_step env p st st'"
| report: "sweep_step env p st (st\<lparr>trace := trace st @ evs\<rparr>)"
| enqueue: "sweep_step env p st (st\<lparr>queue := Insert rs (queue st)\<rparr>)"

text \<open>
  Several threads call \<open>send()\<close> of one handler (guarded variant): the timer through
  \<open>retry()\<close>, the pool tasks pushed by the worker of \<open>WorkerFactory\<close>. An attempt is
  \<open>Calling\<close> before the first locked block, \<open>Sweeping\<close> between the two locked blocks,
  \<open>Skipped\<close> when it returned at \<open>if(busy) return\<close> and \<open>Returned\<close> after the second
  block.
\<close>

datatype attempt = Calling | Sweeping | Skipped | Returned

record system =
  shared :: state
  attempts :: "nat \<Rightarrow> attempt"

text \<open>Attempt \<open>t\<close> runs the first locked block of \<open>send()\<close>, respectively the second.\<close>

definition enter :: "nat \<Rightarrow> system \<Rightarrow> system" where
  "enter t s =
     (case acquire (shared s) of
        (go, st') \<Rightarrow>
          s\<lparr>shared := st', attempts := (attempts s)(t := if go then Sweeping else Skipped)\<rparr>)"

definition leave :: "nat \<Rightarrow> system \<Rightarrow> system" where
  "leave t s = s\<lparr>shared := release (shared s), attempts := (attempts s)(t := Returned)\<rparr>"

text \<open>
  The steps of the system interleave the attempts: a locked block is one step; a
  sweeping attempt makes sweep steps and leaves at any moment (the loop ended, or an
  exception was caught); other threads insert rows at any moment; an attempt that
  returned may call again.
\<close>

inductive transition :: "env \<Rightarrow> protocol \<Rightarrow> system \<Rightarrow> system \<Rightarrow> bool" for env p where
  entering: "attempts s t = Calling \<Longrightarrow> transition env p s (enter t s)"
| sweeping:
    "attempts s t = Sweeping \<Longrightarrow> sweep_step env p (shared s) st' \<Longrightarrow>
     transition env p s (s\<lparr>shared := st'\<rparr>)"
| leaving: "attempts s t = Sweeping \<Longrightarrow> transition env p s (leave t s)"
| inserting:
    "transition env p s (s\<lparr>shared := (shared s)\<lparr>queue := Insert rs (queue (shared s))\<rparr>\<rparr>)"
| again:
    "attempts s t = Skipped \<or> attempts s t = Returned \<Longrightarrow>
     transition env p s (s\<lparr>attempts := (attempts s)(t := Calling)\<rparr>)"

inductive reachable :: "env \<Rightarrow> protocol \<Rightarrow> system \<Rightarrow> bool" for env p where
  start: "\<not> busy (shared s) \<Longrightarrow> \<forall>t. attempts s t \<noteq> Sweeping \<Longrightarrow> reachable env p s"
| after: "reachable env p s \<Longrightarrow> transition env p s s' \<Longrightarrow> reachable env p s'"

text \<open>
  The busy flag is set exactly while an attempt sweeps, and no two attempts sweep.
\<close>

definition single_flight :: "system \<Rightarrow> bool" where
  "single_flight s \<longleftrightarrow>
     (busy (shared s) \<longleftrightarrow> (\<exists>t. attempts s t = Sweeping)) \<and>
     (\<forall>t u. attempts s t = Sweeping \<and> attempts s u = Sweeping \<longrightarrow> t = u)"

text \<open>
  The timer variant. The timer fires for the \<open>t\<close>-th time: the callback tests and sets
  \<open>busy\<close> and pushes the worker task \<open>t\<close>, or skips (the callbacks of the main loop run
  one after the other, so a callback is one step). The task ends with "Schedule next
  retry" and \<open>busy = false\<close>.
\<close>

definition tick :: "protocol \<Rightarrow> nat \<Rightarrow> system \<Rightarrow> system" where
  "tick p t s =
     (case timer_callback p (shared s) of
        (pushed, st') \<Rightarrow>
          s\<lparr>shared := st', attempts := (attempts s)(t := if pushed then Sweeping else Skipped)\<rparr>)"

definition finish :: "protocol \<Rightarrow> nat \<Rightarrow> system \<Rightarrow> system" where
  "finish p t s =
     s\<lparr>shared := (shared s)\<lparr>trace := trace (shared s) @ [Timer (retry_interval p)],
                               busy := False\<rparr>,
       attempts := (attempts s)(t := Returned)\<rparr>"

text \<open>
  The steps of the timer variant: a timer callback; a sweep step of the worker task;
  the task publishing a state (\<open>retry.state\<close> and its events); the task ending, or an
  exception leaving it; a request inserted by the worker of \<open>WorkerFactory\<close>, which
  resets the timer to 100 ms.
\<close>

inductive timer_transition :: "env \<Rightarrow> protocol \<Rightarrow> system \<Rightarrow> system \<Rightarrow> bool" for env p where
  ticking: "attempts s t \<noteq> Sweeping \<Longrightarrow> timer_transition env p s (tick p t s)"
| working:
    "attempts s t = Sweeping \<Longrightarrow> sweep_step env p (shared s) st' \<Longrightarrow>
     timer_transition env p s (s\<lparr>shared := st'\<rparr>)"
| publishing:
    "attempts s t = Sweeping \<Longrightarrow>
     timer_transition env p s
       (s\<lparr>shared := (shared s)\<lparr>retry_state := v, trace := trace (shared s) @ evs\<rparr>\<rparr>)"
| finishing: "attempts s t = Sweeping \<Longrightarrow> timer_transition env p s (finish p t s)"
| escaping:
    "attempts s t = Sweeping \<Longrightarrow>
     timer_transition env p s (s\<lparr>attempts := (attempts s)(t := Returned)\<rparr>)"
| requesting:
    "timer_transition env p s
       (s\<lparr>shared := (shared s)\<lparr>queue := Insert rs (queue (shared s)),
                                 trace := trace (shared s) @ [Timer 100]\<rparr>\<rparr>)"

inductive timer_reachable :: "env \<Rightarrow> protocol \<Rightarrow> system \<Rightarrow> bool" for env p where
  constructed:
    "\<not> busy (shared s) \<Longrightarrow> \<forall>t. attempts s t \<noteq> Sweeping \<Longrightarrow> timer_reachable env p s"
| later:
    "timer_reachable env p s \<Longrightarrow> timer_transition env p s s' \<Longrightarrow> timer_reachable env p s'"

text \<open>While a worker task sweeps the busy flag is set, and no two tasks sweep.\<close>

definition one_worker :: "system \<Rightarrow> bool" where
  "one_worker s \<longleftrightarrow>
     ((\<exists>t. attempts s t = Sweeping) \<longrightarrow> busy (shared s)) \<and>
     (\<forall>t u. attempts s t = Sweeping \<and> attempts s u = Sweeping \<longrightarrow> t = u)"

subsection \<open>Conditions on a run\<close>

text \<open>The store executes every statement of the sweep.\<close>

definition store_ok :: "env \<Rightarrow> bool" where
  "store_ok env \<longleftrightarrow>
     (\<forall>t. prepare env t = None) \<and> (\<forall>i. step_fault env i = None) \<and> (\<forall>k. exec_fault env k = None)"

text \<open>The event loop is not shut down, and the handler stays registered.\<close>

definition running :: "env \<Rightarrow> bool" where
  "running env \<longleftrightarrow> (\<forall>i. mainloop env i \<and> verify env i)"

text \<open>
  The HTTP part of the \<open>i\<close>-th iteration, run for \<open>r\<close>, throws, respectively ends
  normally.
\<close>

definition raises :: "env \<Rightarrow> nat \<Rightarrow> row \<Rightarrow> bool" where
  "raises env i r \<longleftrightarrow> snd (deliver env i r) \<noteq> None"

definition completes :: "env \<Rightarrow> nat \<Rightarrow> row \<Rightarrow> bool" where
  "completes env i r \<longleftrightarrow> snd (deliver env i r) = None"

text \<open>
  The HTTP part ends normally for each row of \<open>q\<close> in turn, the first in iteration \<open>i\<close>,
  the second in iteration \<open>i + 1\<close>, and so on.
\<close>

fun completes_from :: "env \<Rightarrow> nat \<Rightarrow> row list \<Rightarrow> bool" where
  "completes_from env i [] = True"
| "completes_from env i (r # q) = (completes env i r \<and> completes_from env (Suc i) q)"

text \<open>The text of the warning that the catch clauses of \<open>send()\<close> (guarded variant) log.\<close>

definition send_warning :: "exn \<Rightarrow> string" where
  "send_warning e = (case e of Exception w \<Rightarrow> ''Error sending queued message: '' @ w
                      | Thrown \<Rightarrow> ''Unexpected error sending queued messages'')"

text \<open>The same for the catch clauses of the worker task (timer variant).\<close>

definition worker_warning :: "exn \<Rightarrow> string" where
  "worker_warning e =
     (case e of
        Exception w \<Rightarrow> ''Error '' @ [CHR 0x27] @ w @ [CHR 0x27] @ '' while sending queued requests''
      | Thrown \<Rightarrow> ''Unexpected error while sending queued requests'')"

text \<open>Ids are unique and the rows are listed in ascending id order.\<close>

definition ascending :: "row list \<Rightarrow> bool" where
  "ascending q \<longleftrightarrow> sorted_wrt (<) (map rid q)"

text \<open>The HTTP calls among the events, in order.\<close>

fun calls :: "event list \<Rightarrow> (Method \<times> string \<times> string) list" where
  "calls [] = []"
| "calls (Http m u b # evs) = (m, u, b) # calls evs"
| "calls (_ # evs) = calls evs"

text \<open>
  What the HTTP part of an iteration leaves when it ends normally, by the method of the
  row: the call for GET and for POST, the \<open>error()\<close> line for any other method.
\<close>

definition served :: "env \<Rightarrow> row \<Rightarrow> event list" where
  "served env r =
     (case MethodFactory env (action r) of
        Inl e \<Rightarrow> []
      | Inr Get \<Rightarrow> [Http Get (url r) []]
      | Inr Post \<Rightarrow> [Http Post (url r) (payload r)]
      | Inr Other \<Rightarrow> [Err (unexpected_verb (action r))])"

text \<open>The HTTP call a row is delivered by: one for GET, one for POST, none otherwise.\<close>

definition requests :: "env \<Rightarrow> row \<Rightarrow> (Method \<times> string \<times> string) list" where
  "requests env r =
     (case MethodFactory env (action r) of
        Inl e \<Rightarrow> []
      | Inr Get \<Rightarrow> [(Get, url r, [])]
      | Inr Post \<Rightarrow> [(Post, url r, payload r)]
      | Inr Other \<Rightarrow> [])"

text \<open>The events of one iteration that runs to its end, for the row \<open>r\<close>.\<close>

definition handled :: "env \<Rightarrow> protocol \<Rightarrow> row \<Rightarrow> event list" where
  "handled env p r = Sql (select p) # served env r @ [Sql (del p), Sleep (send_delay p)]"

text \<open>
  What the catch clauses of \<open>send()\<close> (guarded variant) make of the outcome of the \<open>try\<close>
  block: the state it left, with the warning when it threw.
\<close>

definition caught :: "exn option \<times> state \<Rightarrow> state" where
  "caught out =
     (case out of
        (None, st') \<Rightarrow> st'
      | (Some e, st') \<Rightarrow> st'\<lparr>trace := trace st' @ [Warn (send_warning e)]\<rparr>)"

subsection \<open>An example configuration\<close>

text \<open>
  A store and a transport that work, three queued requests, and the templates of a
  handler; the concrete runs below start from these.
\<close>

definition demo_env :: env where
  "demo_env =
     \<lparr>prepare = (\<lambda>_. None), step_fault = (\<lambda>_. None), exec_fault = (\<lambda>_. None),
      exec = (\<lambda>_. None), query = (\<lambda>_ tbl. Inr (word_of_nat (length tbl))),
      mainloop = (\<lambda>_. True), verify = (\<lambda>_. True), Client = (\<lambda>_ _. None),
      MethodFactory = (\<lambda>nm. if nm = ''GET'' then Inr Get
                              else if nm = ''POST'' then Inr Post else Inr Other),
      client_get = (\<lambda>_ _. Inr ''200 OK''), client_post = (\<lambda>_ _ _. Inr ''404 Not Found''),
      systemservice = True\<rparr>"

definition demo_protocol :: protocol where
  "demo_protocol =
     \<lparr>ins = ''insert into queue (url, action, payload) values (?, ?, ?)'',
      del = ''delete from queue where id = ?'',
      select = ''select id, url, action, payload from queue order by id'',
      pending = Some ''select count(*) from queue'',
      send_delay = 1, retry_interval = 60000, retry_when_busy = 5000, retry_notify = True\<rparr>"

definition row_a :: row where
  "row_a = \<lparr>rid = 1, url = ''http://example.test/a'', action = ''GET'', payload = []\<rparr>"

definition row_b :: row where
  "row_b = \<lparr>rid = 2, url = ''http://example.test/b'', action = ''POST'', payload = ''{x:1}''\<rparr>"

definition row_c :: row where
  "row_c = \<lparr>rid = 3, url = ''http://example.test/c'', action = ''PUT'', payload = []\<rparr>"

text \<open>The same, with every POST failing at transport level.\<close>

definition down_env :: env where
  "down_env = demo_env\<lparr>client_post := (\<lambda>_ _ _. Inl (Exception ''connection refused''))\<rparr>"

text \<open>
  A store that fails on every select step and on the pending query, and one that
  fails on every \<open>exec\<close>.
\<close>

definition broken_env :: env where
  "broken_env = demo_env\<lparr>step_fault := (\<lambda>_. Some (Exception ''database is locked'')),
                          query := (\<lambda>_ _. Inl (Exception ''database is locked''))\<rparr>"

definition failing_exec :: env where
  "failing_exec = demo_env\<lparr>exec := (\<lambda>_. Some (Exception ''syntax error''))\<rparr>"

text \<open>
  A configuration node with the three required templates and one \<open>init\<close> statement,
  and one without the delete template.
\<close>

definition demo_lib :: lib where
  "demo_lib = \<lparr>strip = (\<lambda>sql. sql), expand = (\<lambda>_ sql. sql), getAttribute = (\<lambda>_ _. 1)\<rparr>"

definition demo_node :: xml_node where
  "demo_node = Node ''sql'' []
     [Node ''init''
        ''create table if not exists queue (id integer primary key, url, action, payload)'' [],
      Node ''insert'' ''insert into queue (url, action, payload) values (?, ?, ?)'' [],
      Node ''delete'' ''delete from queue where id = ?'' [],
      Node ''select'' ''select id, url, action, payload from queue order by id'' []]"

definition bare_node :: xml_node where
  "bare_node = Node ''sql'' [] [Node ''insert'' ''i'' [], Node ''select'' ''s'' []]"

definition idle :: "row list \<Rightarrow> state" where
  "idle tbl = \<lparr>busy = False, queue = tbl, trace = [], retry_state = None\<rparr>"

text \<open>
  Attempts on an idle handler, and the system after attempt 0 got in and attempt 1 was
  turned away.
\<close>

definition callers :: system where
  "callers = \<lparr>shared = idle [row_a], attempts = (\<lambda>_. Calling)\<rparr>"

definition one_in :: system where
  "one_in = \<lparr>shared = (idle [row_a])\<lparr>busy := True\<rparr>,
             attempts = (\<lambda>_. Calling)(0 := Sweeping, 1 := Skipped)\<rparr>"

section \<open>Properties of the loop\<close>

declare loop.simps [simp del]

lemma loop_next:
  "step_fault env i = None \<Longrightarrow> step (queue st) cur = r # rs \<Longrightarrow> chk i \<Longrightarrow>
   iteration env p i r (st\<lparr>trace := trace st @ [Sql (select p)]\<rparr>) = (None, st') \<Longrightarrow>
   loop env chk p i arr cur st =
     loop env chk p (Suc i) (tl arr) None
       (st'\<lparr>queue := Insert (case arr of [] \<Rightarrow> [] | a # _ \<Rightarrow> a) (queue st')\<rparr>)"
  by (rule trans [OF loop.simps]) (simp add: reset_def)

lemma loop_done:
  "step_fault env i = None \<Longrightarrow> step (queue st) cur = [] \<Longrightarrow>
   loop env chk p i arr cur st = (None, st\<lparr>trace := trace st @ [Sql (select p)]\<rparr>)"
  by (rule trans [OF loop.simps]) simp

lemma loop_stop:
  "step_fault env i = None \<Longrightarrow> step (queue st) cur = r # rs \<Longrightarrow> \<not> chk i \<Longrightarrow>
   loop env chk p i arr cur st = (None, st\<lparr>trace := trace st @ [Sql (select p)]\<rparr>)"
  by (rule trans [OF loop.simps]) simp

lemma loop_throw:
  "step_fault env i = None \<Longrightarrow> step (queue st) cur = r # rs \<Longrightarrow> chk i \<Longrightarrow>
   iteration env p i r (st\<lparr>trace := trace st @ [Sql (select p)]\<rparr>) = (Some e, st') \<Longrightarrow>
   loop env chk p i arr cur st = (Some e, st')"
  by (rule trans [OF loop.simps]) simp

lemma loop_step_fault:
  "step_fault env i = Some e \<Longrightarrow> loop env chk p i arr cur st = (Some e, st)"
  by (rule trans [OF loop.simps]) simp

lemma ScanPending_ascending: "ascending q \<Longrightarrow> ScanPending q = q"
  by (simp add: ascending_def ScanPending_def sort_key_id_if_sorted strict_sorted_imp_sorted)

lemma Delete_head: "ascending (r # q) \<Longrightarrow> Delete (rid r) (r # q) = q"
  by (auto simp: ascending_def Delete_def filter_id_conv)

lemma ascending_tail: "ascending (r # q) \<Longrightarrow> ascending q"
  by (simp add: ascending_def)

lemma not_in_Delete: "r \<notin> set (Delete (rid r) tbl)"
  by (simp add: Delete_def)

lemma deliver_Get:
  "Client env i (url r) = None \<Longrightarrow> MethodFactory env (action r) = Inr Get \<Longrightarrow>
   client_get env i (url r) = Inr response \<Longrightarrow> deliver env i r = ([Http Get (url r) []], None)"
  by (simp add: deliver_def)

lemma deliver_Post:
  "Client env i (url r) = None \<Longrightarrow> MethodFactory env (action r) = Inr Post \<Longrightarrow>
   client_post env i (url r) (payload r) = Inr response \<Longrightarrow>
   deliver env i r = ([Http Post (url r) (payload r)], None)"
  by (simp add: deliver_def)

lemma deliver_Other:
  "Client env i (url r) = None \<Longrightarrow> MethodFactory env (action r) = Inr Other \<Longrightarrow>
   deliver env i r = ([Err (unexpected_verb (action r))], None)"
  by (simp add: deliver_def)

text \<open>An iteration that ends normally leaves the events of its row's method.\<close>

lemma deliver_served: "completes env i r \<Longrightarrow> fst (deliver env i r) = served env r"
  by (auto simp: completes_def deliver_def served_def
      split: option.splits sum.splits Method.splits)

lemma calls_served: "calls (served env r) = requests env r"
  by (simp add: served_def requests_def split: sum.splits Method.splits)

lemma iteration_completes:
  "completes env i r \<Longrightarrow> exec_fault env (rid r) = None \<Longrightarrow>
   iteration env p i r st =
     (None, st\<lparr>queue := Delete (rid r) (queue st),
                trace := trace st @ served env r @ [Sql (del p), Sleep (send_delay p)]\<rparr>)"
  using deliver_served [of env i r]
  by (cases "deliver env i r") (simp add: iteration_def completes_def)

lemma iteration_raises:
  "snd (deliver env i r) = Some e \<Longrightarrow>
   iteration env p i r st = (Some e, st\<lparr>trace := trace st @ fst (deliver env i r)\<rparr>)"
  by (cases "deliver env i r") (simp add: iteration_def)

lemma handled_unfold:
  "handled env p r = Sql (select p) # served env r @ [Sql (del p), Sleep (send_delay p)]"
  by (simp add: handled_def)

lemma completes_from_append:
  "completes_from env i (q @ q') \<longleftrightarrow>
     completes_from env i q \<and> completes_from env (i + length q) q'"
  by (induction q arbitrary: i) auto

lemma completes_from_nth:
  "completes_from env i q \<longleftrightarrow> (\<forall>j<length q. completes env (i + j) (q ! j))"
proof (induction q arbitrary: i)
  case Nil
  show ?case by simp
next
  case (Cons r q)
  show ?case
    by (simp add: Cons.IH [of "Suc i"] All_less_Suc2)
qed

lemma loop_drains:
  assumes sf: "\<And>i. step_fault env i = None" and ef: "\<And>k. exec_fault env k = None"
    and ck: "\<And>i. chk i"
  shows "ascending q \<Longrightarrow> completes_from env i q \<Longrightarrow> queue st = q \<Longrightarrow>
    loop env chk p i [] None st =
      (None, st\<lparr>queue := [],
                 trace := trace st @ concat (map (handled env p) q) @ [Sql (select p)]\<rparr>)"
proof (induction q arbitrary: i st)
  case Nil
  have "st\<lparr>queue := []\<rparr> = st"
    using Nil.prems by (cases st) simp
  then have "st\<lparr>queue := [], trace := trace st @ [Sql (select p)]\<rparr>
      = st\<lparr>trace := trace st @ [Sql (select p)]\<rparr>"
    by simp
  moreover have "step (queue st) None = []"
    using Nil.prems by (simp add: step_def ScanPending_def)
  ultimately show ?case
    by (simp add: loop_done [OF sf])
next
  case (Cons r q)
  let ?st1 = "st\<lparr>trace := trace st @ [Sql (select p)]\<rparr>"
  let ?st2 = "?st1\<lparr>queue := Delete (rid r) (queue ?st1),
                trace := trace ?st1 @ served env r @ [Sql (del p), Sleep (send_delay p)]\<rparr>"
  let ?st3 = "?st2\<lparr>queue := Insert [] (queue ?st2)\<rparr>"
  have scan: "step (queue st) None = r # q"
    using Cons.prems by (simp add: step_def ScanPending_ascending)
  have it: "iteration env p i r ?st1 = (None, ?st2)"
    using Cons.prems by (simp add: iteration_completes ef)
  have q3: "queue ?st3 = q"
    using Cons.prems by (simp add: Insert_def Delete_head)
  have "loop env chk p i [] None st = loop env chk p (Suc i) [] None ?st3"
    using loop_next [where chk = chk and arr = "[]", OF sf scan ck it] by simp
  also have "\<dots> = (None, ?st3\<lparr>queue := [],
                 trace := trace ?st3 @ concat (map (handled env p) q) @ [Sql (select p)]\<rparr>)"
    using Cons.prems q3 by (intro Cons.IH) (auto dest: ascending_tail)
  also have "\<dots> = (None, st\<lparr>queue := [],
                 trace := trace st @ concat (map (handled env p) (r # q)) @ [Sql (select p)]\<rparr>)"
    by (simp add: handled_unfold [of env p r])
  finally show ?case .
qed

lemma loop_aborts:
  assumes sf: "\<And>i. step_fault env i = None" and ef: "\<And>k. exec_fault env k = None"
    and ck: "\<And>i. chk i"
  shows "ascending (pre @ r # post) \<Longrightarrow> completes_from env i pre \<Longrightarrow>
    snd (deliver env (i + length pre) r) = Some e \<Longrightarrow> queue st = pre @ r # post \<Longrightarrow>
    loop env chk p i [] None st =
      (Some e, st\<lparr>queue := r # post,
                 trace := trace st @ concat (map (handled env p) pre)
                            @ Sql (select p) # fst (deliver env (i + length pre) r)\<rparr>)"
proof (induction pre arbitrary: i st)
  case Nil
  let ?st1 = "st\<lparr>trace := trace st @ [Sql (select p)]\<rparr>"
  have scan: "step (queue st) None = r # post"
    using Nil.prems by (simp add: step_def ScanPending_ascending)
  have it: "iteration env p i r ?st1 = (Some e, ?st1\<lparr>trace := trace ?st1 @ fst (deliver env i r)\<rparr>)"
    using Nil.prems by (simp add: iteration_raises)
  have "st\<lparr>queue := r # post\<rparr> = st"
    using Nil.prems by (cases st) simp
  then have "st\<lparr>queue := r # post, trace := trace st @ Sql (select p) # fst (deliver env i r)\<rparr>
      = st\<lparr>trace := trace st @ Sql (select p) # fst (deliver env i r)\<rparr>"
    by simp
  then show ?case
    using loop_throw [where chk = chk and arr = "[]", OF sf scan ck it] by simp
next
  case (Cons x pre)
  let ?st1 = "st\<lparr>trace := trace st @ [Sql (select p)]\<rparr>"
  let ?st2 = "?st1\<lparr>queue := Delete (rid x) (queue ?st1),
                trace := trace ?st1 @ served env x @ [Sql (del p), Sleep (send_delay p)]\<rparr>"
  let ?st3 = "?st2\<lparr>queue := Insert [] (queue ?st2)\<rparr>"
  have scan: "step (queue st) None = x # pre @ r # post"
    using Cons.prems by (simp add: step_def ScanPending_ascending)
  have it: "iteration env p i x ?st1 = (None, ?st2)"
    using Cons.prems by (simp add: iteration_completes ef)
  have q3: "queue ?st3 = pre @ r # post"
    using Cons.prems by (simp add: Insert_def Delete_head)
  have "loop env chk p i [] None st = loop env chk p (Suc i) [] None ?st3"
    using loop_next [where chk = chk and arr = "[]", OF sf scan ck it] by simp
  also have "\<dots> = (Some e, ?st3\<lparr>queue := r # post,
                 trace := trace ?st3 @ concat (map (handled env p) pre)
                            @ Sql (select p) # fst (deliver env (Suc i + length pre) r)\<rparr>)"
    using Cons.prems q3 by (intro Cons.IH) (auto dest: ascending_tail)
  also have "\<dots> = (Some e, st\<lparr>queue := r # post,
                 trace := trace st @ concat (map (handled env p) (x # pre))
                            @ Sql (select p) # fst (deliver env (i + length (x # pre)) r)\<rparr>)"
    by (simp add: handled_unfold [of env p x])
  finally show ?case .
qed

text \<open>Rows that arrive during the (j+1)-th iteration are handled by the same loop.\<close>

lemma loop_arrival:
  assumes sf: "\<And>i. step_fault env i = None" and ef: "\<And>k. exec_fault env k = None"
    and ck: "\<And>i. chk i"
  shows "j < length q \<Longrightarrow> ascending (q @ a) \<Longrightarrow> completes_from env i (q @ a) \<Longrightarrow>
    queue st = q \<Longrightarrow>
    loop env chk p i (replicate j [] @ [a]) None st =
      (None, st\<lparr>queue := [],
                 trace := trace st @ concat (map (handled env p) (q @ a)) @ [Sql (select p)]\<rparr>)"
proof (induction j arbitrary: q i st)
  case 0
  then obtain r rest where q: "q = r # rest"
    by (cases q) auto
  let ?st1 = "st\<lparr>trace := trace st @ [Sql (select p)]\<rparr>"
  let ?st2 = "?st1\<lparr>queue := Delete (rid r) (queue ?st1),
                trace := trace ?st1 @ served env r @ [Sql (del p), Sleep (send_delay p)]\<rparr>"
  let ?st3 = "?st2\<lparr>queue := Insert a (queue ?st2)\<rparr>"
  have asc: "ascending (r # rest)" "ascending (rest @ a)"
    using "0.prems" by (simp_all add: q ascending_def sorted_wrt_append)
  have scan: "step (queue st) None = r # rest"
    using "0.prems" asc by (simp add: q step_def ScanPending_ascending)
  have it: "iteration env p i r ?st1 = (None, ?st2)"
    using "0.prems" by (simp add: q iteration_completes ef)
  have q3: "queue ?st3 = rest @ a"
    using "0.prems" asc by (simp add: q Insert_def Delete_head)
  have "loop env chk p i (replicate 0 [] @ [a]) None st = loop env chk p (Suc i) [] None ?st3"
    using loop_next [where chk = chk and arr = "[a]", OF sf scan ck it] by simp
  also have "\<dots> = (None, ?st3\<lparr>queue := [],
                 trace := trace ?st3 @ concat (map (handled env p) (rest @ a)) @ [Sql (select p)]\<rparr>)"
    using "0.prems" q3 asc by (intro loop_drains [OF sf ef ck]) (auto simp: q)
  also have "\<dots> = (None, st\<lparr>queue := [],
                 trace := trace st @ concat (map (handled env p) (q @ a)) @ [Sql (select p)]\<rparr>)"
    by (simp add: q handled_unfold [of env p r])
  finally show ?case .
next
  case (Suc j)
  then obtain r rest where q: "q = r # rest"
    by (cases q) auto
  let ?st1 = "st\<lparr>trace := trace st @ [Sql (select p)]\<rparr>"
  let ?st2 = "?st1\<lparr>queue := Delete (rid r) (queue ?st1),
                trace := trace ?st1 @ served env r @ [Sql (del p), Sleep (send_delay p)]\<rparr>"
  let ?st3 = "?st2\<lparr>queue := Insert [] (queue ?st2)\<rparr>"
  have asc: "ascending (r # rest)" "ascending (rest @ a)"
    using Suc.prems by (simp_all add: q ascending_def sorted_wrt_append)
  have scan: "step (queue st) None = r # rest"
    using Suc.prems asc by (simp add: q step_def ScanPending_ascending)
  have it: "iteration env p i r ?st1 = (None, ?st2)"
    using Suc.prems by (simp add: q iteration_completes ef)
  have q3: "queue ?st3 = rest"
    using Suc.prems asc by (simp add: q Insert_def Delete_head)
  have "loop env chk p i (replicate (Suc j) [] @ [a]) None st
      = loop env chk p (Suc i) (replicate j [] @ [a]) None ?st3"
    using loop_next [where chk = chk and arr = "replicate (Suc j) [] @ [a]", OF sf scan ck it]
    by simp
  also have "\<dots> = (None, ?st3\<lparr>queue := [],
                 trace := trace ?st3 @ concat (map (handled env p) (rest @ a)) @ [Sql (select p)]\<rparr>)"
    using Suc.prems q3 asc by (intro Suc.IH) (auto simp: q)
  also have "\<dots> = (None, st\<lparr>queue := [],
                 trace := trace st @ concat (map (handled env p) (q @ a)) @ [Sql (select p)]\<rparr>)"
    by (simp add: q handled_unfold [of env p r])
  finally show ?case .
qed

subsection \<open>Whole sweeps\<close>

lemma sweep_store_ok: "store_ok env \<Longrightarrow> sweep env chk p arr st = loop env chk p 0 arr None st"
  by (simp add: sweep_def store_ok_def)

lemma send_busy: "busy st \<Longrightarrow> send env p arr st = (None, st)"
  by (simp add: send_def acquire_def)

lemma send_returns:
  "\<not> busy st \<Longrightarrow> sweep env (\<lambda>i. mainloop env i \<and> verify env i) p arr (st\<lparr>busy := True\<rparr>) = (None, st') \<Longrightarrow>
   send env p arr st = (None, st'\<lparr>busy := False\<rparr>)"
  by (simp add: send_def acquire_def release_def)

lemma send_catches:
  "\<not> busy st \<Longrightarrow> sweep env (\<lambda>i. mainloop env i \<and> verify env i) p arr (st\<lparr>busy := True\<rparr>) = (Some e, st') \<Longrightarrow>
   send env p arr st = (None, st'\<lparr>trace := trace st' @ [Warn (send_warning e)], busy := False\<rparr>)"
  by (cases e) (simp_all add: send_def acquire_def release_def send_warning_def)

lemma not_busy_update: "\<not> busy st \<Longrightarrow> st\<lparr>busy := False\<rparr> = st"
  by (cases st) simp

lemma send_drains:
  assumes "store_ok env" and "running env" and "ascending q" and "completes_from env 0 q"
    and "\<not> busy st" and "queue st = q"
  shows "send env p [] st =
      (None, st\<lparr>queue := [],
                 trace := trace st @ concat (map (handled env p) q) @ [Sql (select p)]\<rparr>)"
proof -
  let ?chk = "\<lambda>i. mainloop env i \<and> verify env i"
  let ?st0 = "st\<lparr>busy := True\<rparr>"
  have "sweep env ?chk p [] ?st0 = loop env ?chk p 0 [] None ?st0"
    using assms(1) by (rule sweep_store_ok)
  also have "\<dots> = (None, ?st0\<lparr>queue := [],
                 trace := trace ?st0 @ concat (map (handled env p) q) @ [Sql (select p)]\<rparr>)"
    using assms by (intro loop_drains) (simp_all add: store_ok_def running_def)
  finally have "send env p [] st = (None, ?st0\<lparr>queue := [],
                 trace := trace ?st0 @ concat (map (handled env p) q) @ [Sql (select p)],
                 busy := False\<rparr>)"
    using assms(5) by (simp add: send_returns)
  then show ?thesis
    using not_busy_update [OF assms(5)] by (cases st) simp
qed

lemma send_aborts:
  assumes "store_ok env" and "running env" and "ascending (pre @ r # post)"
    and "completes_from env 0 pre" and "snd (deliver env (length pre) r) = Some e"
    and "\<not> busy st" and "queue st = pre @ r # post"
  shows "send env p [] st =
      (None, st\<lparr>queue := r # post,
                 trace := trace st @ concat (map (handled env p) pre)
                            @ Sql (select p) # fst (deliver env (length pre) r) @ [Warn (send_warning e)]\<rparr>)"
proof -
  let ?chk = "\<lambda>i. mainloop env i \<and> verify env i"
  let ?st0 = "st\<lparr>busy := True\<rparr>"
  have "sweep env ?chk p [] ?st0 = loop env ?chk p 0 [] None ?st0"
    using assms(1) by (rule sweep_store_ok)
  also have "\<dots> = (Some e, ?st0\<lparr>queue := r # post,
                 trace := trace ?st0 @ concat (map (handled env p) pre)
                            @ Sql (select p) # fst (deliver env (length pre) r)\<rparr>)"
    using assms by (intro loop_aborts [where i = 0, simplified]) (simp_all add: store_ok_def running_def)
  finally have "send env p [] st = (None, ?st0\<lparr>queue := r # post,
                 trace := trace ?st0 @ concat (map (handled env p) pre)
                            @ Sql (select p) # fst (deliver env (length pre) r) @ [Warn (send_warning e)],
                 busy := False\<rparr>)"
    using assms(6) by (simp add: send_catches)
  then show ?thesis
    using not_busy_update [OF assms(6)] by (cases st) simp
qed

lemma send_arrival:
  assumes "store_ok env" and "running env" and "j < length q" and "ascending (q @ a)"
    and "completes_from env 0 (q @ a)" and "\<not> busy st" and "queue st = q"
  shows "send env p (replicate j [] @ [a]) st =
      (None, st\<lparr>queue := [],
                 trace := trace st @ concat (map (handled env p) (q @ a)) @ [Sql (select p)]\<rparr>)"
proof -
  let ?chk = "\<lambda>i. mainloop env i \<and> verify env i"
  let ?st0 = "st\<lparr>busy := True\<rparr>"
  let ?arr = "replicate j [] @ [a]"
  have "sweep env ?chk p ?arr ?st0 = loop env ?chk p 0 ?arr None ?st0"
    using assms(1) by (rule sweep_store_ok)
  also have "\<dots> = (None, ?st0\<lparr>queue := [],
                 trace := trace ?st0 @ concat (map (handled env p) (q @ a)) @ [Sql (select p)]\<rparr>)"
    using assms by (intro loop_arrival) (simp_all add: store_ok_def running_def)
  finally have "send env p ?arr st = (None, ?st0\<lparr>queue := [],
                 trace := trace ?st0 @ concat (map (handled env p) (q @ a)) @ [Sql (select p)],
                 busy := False\<rparr>)"
    using assms(6) by (simp add: send_returns)
  then show ?thesis
    using not_busy_update [OF assms(6)] by (cases st) simp
qed

text \<open>
  The timer variant: its sweep is the \<open>try\<close> block of the guarded one whenever
  \<open>Protocol::verify\<close> holds, and its worker task handles the same runs in the same way.
\<close>

lemma variants_agree:
  "\<forall>i. verify env i \<Longrightarrow>
   sweep env (\<lambda>i. mainloop env i \<and> verify env i) p arr st = send_const env p arr st"
proof -
  assume "\<forall>i. verify env i"
  then have "(\<lambda>i. mainloop env i \<and> verify env i) = mainloop env"
    by auto
  then show ?thesis
    by (simp add: send_const_def)
qed

lemma worker_try_catches:
  "send_const env p arr st = (Some e, st') \<Longrightarrow>
   worker_try env p arr st = (None, st'\<lparr>trace := trace st' @ [Warn (worker_warning e)]\<rparr>)"
  by (cases e) (simp_all add: worker_try_def worker_warning_def)

lemma worker_try_returns:
  "send_const env p arr st = (None, st') \<Longrightarrow> worker_try env p arr st = (None, st')"
  by (simp add: worker_try_def)

lemma worker_try_drains:
  assumes "store_ok env" and "\<forall>i. mainloop env i" and "ascending q"
    and "completes_from env 0 q" and "queue st = q"
  shows "worker_try env p [] st =
      (None, st\<lparr>queue := [],
                 trace := trace st @ concat (map (handled env p) q) @ [Sql (select p)]\<rparr>)"
proof -
  have "send_const env p [] st = loop env (mainloop env) p 0 [] None st"
    using assms(1) by (simp add: send_const_def sweep_store_ok)
  also have "\<dots> = (None, st\<lparr>queue := [],
                 trace := trace st @ concat (map (handled env p) q) @ [Sql (select p)]\<rparr>)"
    using assms by (intro loop_drains) (simp_all add: store_ok_def)
  finally show ?thesis
    by (rule worker_try_returns)
qed

lemma worker_try_aborts:
  assumes "store_ok env" and "\<forall>i. mainloop env i" and "ascending (pre @ r # post)"
    and "completes_from env 0 pre" and "snd (deliver env (length pre) r) = Some e"
    and "queue st = pre @ r # post"
  shows "worker_try env p [] st =
      (None, st\<lparr>queue := r # post,
                 trace := trace st @ concat (map (handled env p) pre)
                            @ Sql (select p) # fst (deliver env (length pre) r) @ [Warn (worker_warning e)]\<rparr>)"
proof -
  have "send_const env p [] st = loop env (mainloop env) p 0 [] None st"
    using assms(1) by (simp add: send_const_def sweep_store_ok)
  also have "\<dots> = (Some e, st\<lparr>queue := r # post,
                 trace := trace st @ concat (map (handled env p) pre)
                            @ Sql (select p) # fst (deliver env (length pre) r)\<rparr>)"
    using assms by (intro loop_aborts [where i = 0, simplified]) (simp_all add: store_ok_def)
  finally show ?thesis
    by (simp add: worker_try_catches)
qed

lemma worker_try_arrival:
  assumes "store_ok env" and "\<forall>i. mainloop env i" and "j < length q" and "ascending (q @ a)"
    and "completes_from env 0 (q @ a)" and "queue st = q"
  shows "worker_try env p (replicate j [] @ [a]) st =
      (None, st\<lparr>queue := [],
                 trace := trace st @ concat (map (handled env p) (q @ a)) @ [Sql (select p)]\<rparr>)"
proof -
  let ?arr = "replicate j [] @ [a]"
  have "send_const env p ?arr st = loop env (mainloop env) p 0 ?arr None st"
    using assms(1) by (simp add: send_const_def sweep_store_ok)
  also have "\<dots> = (None, st\<lparr>queue := [],
                 trace := trace st @ concat (map (handled env p) (q @ a)) @ [Sql (select p)]\<rparr>)"
    using assms by (intro loop_arrival) (simp_all add: store_ok_def)
  finally show ?thesis
    by (rule worker_try_returns)
qed

lemma calls_append: "calls (xs @ ys) = calls xs @ calls ys"
  by (induction xs rule: calls.induct) simp_all

lemma calls_handled: "calls (handled env p r) = requests env r"
  by (simp add: handled_def calls_append calls_served)

lemma calls_concat_handled:
  "calls (concat (map (handled env p) q)) = concat (map (requests env) q)"
  by (induction q) (simp_all add: calls_append calls_handled)

text \<open>
  What \<open>send()\<close> does when it finds the flag clear: it sets it, runs the \<open>try\<close> block,
  logs what it caught and clears the flag.
\<close>

lemma send_clear:
  "\<not> busy st \<Longrightarrow>
   send env p arr st =
     (None, release (caught (sweep env (\<lambda>i. mainloop env i \<and> verify env i) p arr
                               (st\<lparr>busy := True\<rparr>))))"
  by (simp add: send_def acquire_def caught_def send_warning_def
      split: prod.splits option.splits exn.splits)

lemma send_never_throws: "fst (send env p arr st) = None"
  by (simp add: send_def acquire_def split: prod.splits option.splits exn.splits bool.splits)

lemma send_restores_busy: "busy (snd (send env p arr st)) = busy st"
  by (simp add: send_def acquire_def release_def split: prod.splits option.splits exn.splits bool.splits)

subsection \<open>Decimal numerals and 64-bit counts\<close>

declare dec.simps [simp del]

lemma numeral_of_snoc: "numeral_of (cs @ [c]) = 10 * numeral_of cs + (of_char c - 48)"
  by (simp add: numeral_of_def)

lemma of_char_digit: "d < 10 \<Longrightarrow> of_char (digit d) - 48 = (d::nat)"
proof -
  assume "d < 10"
  then have "d \<in> {0, 1, 2, 3, 4, 5, 6, 7, 8, 9}"
    by auto
  then show ?thesis
    by (auto simp: digit_def)
qed

lemma numeral_of_dec: "numeral_of (dec n) = n"
proof (induction n rule: dec.induct)
  case (1 n)
  show ?case
  proof (cases "n < 10")
    case True
    then show ?thesis
      by (subst dec.simps) (simp add: numeral_of_def of_char_digit)
  next
    case False
    have "numeral_of (dec n) = 10 * numeral_of (dec (n div 10)) + n mod 10"
      using False by (subst dec.simps) (simp add: numeral_of_snoc of_char_digit)
    then show ?thesis
      using False "1.IH" by simp
  qed
qed

lemma unat_count: "c < 2 ^ 63 \<Longrightarrow> unat (word_of_nat c :: 64 word) = c"
  by (simp add: unat_of_nat)

lemma sint_count: "c < 2 ^ 63 \<Longrightarrow> sint (word_of_nat c :: 64 word) = int c"
proof -
  assume "c < 2 ^ 63"
  then have "int c < 2 ^ 63" "- (2 ^ 63) \<le> int c"
    by simp_all
  then have "signed_take_bit 63 (int c) = int c"
    by (intro signed_take_bit_int_eq_self) simp_all
  then show ?thesis
    by (simp add: signed_of_nat)
qed

lemma count_eq_0: "c < 2 ^ 63 \<Longrightarrow> (word_of_nat c :: 64 word) = 0 \<longleftrightarrow> c = 0"
  using unat_count [of c] by (auto simp del: of_nat_eq_0_iff)

lemma count_eq_1: "c < 2 ^ 63 \<Longrightarrow> (word_of_nat c :: 64 word) = 1 \<longleftrightarrow> c = 1"
  using unat_count [of c] by auto

lemma Message_pending:
  "Message ''{} pending requests in the output queue'' a = a @ '' pending requests in the output queue''"
  by simp

subsection \<open>Construction\<close>

lemma init_loop_fails:
  "\<exists>c\<in>set cs. exec env (init_sql l c) \<noteq> None \<Longrightarrow> \<exists>e evs. init_loop l env cs = (Some e, evs)"
proof (induction cs)
  case Nil
  then show ?case by simp
next
  case (Cons c cs)
  show ?case
  proof (cases "exec env (init_sql l c)")
    case (Some e)
    then show ?thesis by simp
  next
    case None
    with Cons.prems have "\<exists>c\<in>set cs. exec env (init_sql l c) \<noteq> None"
      by auto
    then obtain e evs where "init_loop l env cs = (Some e, evs)"
      using Cons.IH by blast
    with None show ?thesis by simp
  qed
qed

lemma init_loop_runs:
  "\<forall>c\<in>set cs. exec env (init_sql l c) = None \<Longrightarrow>
   init_loop l env cs = (None, map (\<lambda>c. Sql (init_sql l c)) cs)"
  by (induction cs) auto

lemma child_value_required:
  "child_value l node nm True =
     (case child node nm of None \<Rightarrow> Inl (Exception (child_not_found nm))
      | Some c \<Rightarrow> Inr (expand l node (strip l (node_text c))))"
  by (simp add: child_value_def)

lemma child_value_optional: "child node nm = None \<Longrightarrow> child_value l node nm False = Inr []"
  by (simp add: child_value_def)

lemma child_value_optional_Inr: "\<exists>t. child_value l node nm False = Inr t"
  by (simp add: child_value_def split: option.splits)

subsection \<open>Interleaved attempts\<close>

lemma iteration_busy: "iteration env p i r st = (x, st') \<Longrightarrow> busy st' = busy st"
  by (auto simp: iteration_def split: prod.splits option.splits)

lemma sweep_step_busy: "sweep_step env p st st' \<Longrightarrow> busy st' = busy st"
  by (induction rule: sweep_step.induct) (auto dest: iteration_busy)

text \<open>Every run of the loop, of the sweep and of the \<open>try\<close> block is a sequence of sweep steps.\<close>

lemma loop_run:
  "cur = None \<Longrightarrow> (sweep_step env p)\<^sup>*\<^sup>* st (snd (loop env chk p i arr cur st))"
proof (induction env chk p i arr cur st rule: loop.induct)
  case (1 env chk p i arr cur st)
  let ?st1 = "st\<lparr>trace := trace st @ [Sql (select p)]\<rparr>"
  have first: "sweep_step env p st ?st1"
    by (rule sweep_step.report)
  show ?case
  proof (cases "step_fault env i")
    case (Some e)
    then show ?thesis
      by (simp add: loop_step_fault)
  next
    case None
    show ?thesis
    proof (cases "step (queue st) cur")
      case Nil
      then show ?thesis
        using None first by (simp add: loop_done)
    next
      case (Cons r rs)
      show ?thesis
      proof (cases "chk i")
        case False
        then show ?thesis
          using None Cons first by (simp add: loop_stop)
      next
        case True
        obtain x st' where it: "iteration env p i r ?st1 = (x, st')"
          by (cases "iteration env p i r ?st1") auto
        have "step (queue ?st1) None = r # rs"
          using Cons "1.prems" by simp
        then have second: "sweep_step env p ?st1 st'"
          using it by (rule sweep_step.iterate)
        show ?thesis
        proof (cases x)
          case (Some e)
          then have "loop env chk p i arr cur st = (Some e, st')"
            using None Cons True it by (simp add: loop_throw)
          then show ?thesis
            using first second by simp
        next
          case none: None
          let ?st2 = "st'\<lparr>queue := Insert (case arr of [] \<Rightarrow> [] | a # _ \<Rightarrow> a) (queue st')\<rparr>"
          have third: "sweep_step env p st' ?st2"
            by (rule sweep_step.enqueue)
          have eq: "loop env chk p i arr cur st = loop env chk p (Suc i) (tl arr) None ?st2"
            using None Cons True it none by (simp add: loop_next)
          have "(sweep_step env p)\<^sup>*\<^sup>* ?st2
                  (snd (loop env chk p (Suc i) (tl arr) (reset (Some (r # rs))) ?st2))"
            using None Cons True it none by (intro "1.IH") (simp_all add: reset_def)
          then have "(sweep_step env p)\<^sup>*\<^sup>* ?st2 (snd (loop env chk p i arr cur st))"
            by (simp add: eq reset_def)
          then show ?thesis
            using first second third by (meson converse_rtranclp_into_rtranclp)
        qed
      qed
    qed
  qed
qed

lemma sweep_run: "(sweep_step env p)\<^sup>*\<^sup>* st (snd (sweep env chk p arr st))"
  by (simp add: sweep_def loop_run split: option.splits)

lemma caught_run: "(sweep_step env p)\<^sup>*\<^sup>* st (caught (sweep env chk p arr st))"
proof -
  obtain x st' where out: "sweep env chk p arr st = (x, st')"
    by (cases "sweep env chk p arr st") auto
  have "(sweep_step env p)\<^sup>*\<^sup>* st st'"
    using sweep_run [of env p st chk arr] out by simp
  moreover have "sweep_step env p st' (caught (x, st'))"
  proof (cases x)
    case None
    have "sweep_step env p st' (st'\<lparr>trace := trace st' @ []\<rparr>)"
      by (rule sweep_step.report)
    then show ?thesis
      using None by (simp add: caught_def)
  next
    case (Some e)
    have "sweep_step env p st' (st'\<lparr>trace := trace st' @ [Warn (send_warning e)]\<rparr>)"
      by (rule sweep_step.report)
    then show ?thesis
      using Some by (simp add: caught_def)
  qed
  ultimately show ?thesis
    by (simp add: out)
qed

lemma sweeping_run:
  "(sweep_step env p)\<^sup>*\<^sup>* st0 st' \<Longrightarrow> attempts s t = Sweeping \<Longrightarrow> shared s = st0 \<Longrightarrow>
   (transition env p)\<^sup>*\<^sup>* s (s\<lparr>shared := st'\<rparr>)"
proof (induction rule: rtranclp_induct)
  case base
  then have "s\<lparr>shared := st0\<rparr> = s"
    by (cases s) auto
  then show ?case by simp
next
  case (step y z)
  have "transition env p (s\<lparr>shared := y\<rparr>) (s\<lparr>shared := y\<rparr>\<lparr>shared := z\<rparr>)"
    using step.hyps(2) step.prems(1) by (intro transition.sweeping [of _ t]) simp_all
  then show ?case
    using step by (simp add: rtranclp.rtrancl_into_rtrancl)
qed

text \<open>What the first locked block does to the system.\<close>

lemma enter_busy:
  "busy (shared s) \<Longrightarrow> enter u s = s\<lparr>attempts := (attempts s)(u := Skipped)\<rparr>"
  by (cases s) (simp add: enter_def acquire_def)

lemma enter_clear:
  "\<not> busy (shared s) \<Longrightarrow>
   enter u s = s\<lparr>shared := (shared s)\<lparr>busy := True\<rparr>, attempts := (attempts s)(u := Sweeping)\<rparr>"
  by (simp add: enter_def acquire_def)

text \<open>A whole call of \<open>send()\<close> by attempt \<open>t\<close>, with nothing in between, is a path of the system.\<close>

lemma send_run:
  assumes "attempts s t = Calling"
  shows "(transition env p)\<^sup>*\<^sup>* s
     (s\<lparr>shared := snd (send env p arr (shared s)),
        attempts := (attempts s)(t := if busy (shared s) then Skipped else Returned)\<rparr>)"
proof (cases "busy (shared s)")
  case True
  have "transition env p s (enter t s)"
    using assms by (rule transition.entering)
  moreover have "enter t s = s\<lparr>shared := snd (send env p arr (shared s)),
        attempts := (attempts s)(t := Skipped)\<rparr>"
    using True by (cases s) (simp add: enter_def acquire_def send_busy)
  ultimately show ?thesis
    using True by simp
next
  case False
  let ?chk = "\<lambda>i. mainloop env i \<and> verify env i"
  let ?s1 = "enter t s"
  let ?st2 = "caught (sweep env ?chk p arr (shared ?s1))"
  have s1: "shared ?s1 = (shared s)\<lparr>busy := True\<rparr>" "attempts ?s1 t = Sweeping"
    using False by (simp_all add: enter_clear)
  have a: "transition env p s ?s1"
    using assms by (rule transition.entering)
  have b: "(transition env p)\<^sup>*\<^sup>* ?s1 (?s1\<lparr>shared := ?st2\<rparr>)"
    using caught_run s1(2) by (rule sweeping_run) simp
  have c: "transition env p (?s1\<lparr>shared := ?st2\<rparr>) (leave t (?s1\<lparr>shared := ?st2\<rparr>))"
    using s1(2) by (intro transition.leaving) simp
  have "leave t (?s1\<lparr>shared := ?st2\<rparr>) =
      s\<lparr>shared := snd (send env p arr (shared s)), attempts := (attempts s)(t := Returned)\<rparr>"
    using False by (simp add: leave_def send_clear enter_clear)
  then show ?thesis
    using a b c False
    by (simp add: converse_rtranclp_into_rtranclp rtranclp.rtrancl_into_rtrancl)
qed

lemma transition_single_flight:
  "transition env p s s' \<Longrightarrow> single_flight s \<Longrightarrow> single_flight s'"
proof (induction rule: transition.induct)
  case (entering s t)
  show ?case
  proof (cases "busy (shared s)")
    case True
    have same: "((attempts s)(t := Skipped)) v = Sweeping \<longleftrightarrow> attempts s v = Sweeping" for v
      using entering.hyps by simp
    show ?thesis
      using entering.prems same True by (simp add: single_flight_def enter_busy)
  next
    case False
    then have none: "attempts s v \<noteq> Sweeping" for v
      using entering.prems by (simp add: single_flight_def)
    have only: "((attempts s)(t := Sweeping)) v = Sweeping \<longleftrightarrow> v = t" for v
      using none [of v] by simp
    show ?thesis
      using only False by (simp add: single_flight_def enter_clear)
  qed
next
  case (sweeping s t st')
  then show ?case
    using sweep_step_busy [of env p "shared s" st'] by (simp add: single_flight_def)
next
  case (leaving s t)
  then have only: "attempts s v = Sweeping \<longleftrightarrow> v = t" for v
    by (auto simp: single_flight_def)
  have none: "((attempts s)(t := Returned)) v \<noteq> Sweeping" for v
    using only [of v] by simp
  show ?case
    using none by (simp add: single_flight_def leave_def release_def)
next
  case (inserting s rs)
  then show ?case by (simp add: single_flight_def)
next
  case (again s t)
  then have same: "((attempts s)(t := Calling)) v = Sweeping \<longleftrightarrow> attempts s v = Sweeping" for v
    by auto
  show ?case
    using again.prems same by (simp add: single_flight_def)
qed

lemma reachable_single_flight: "reachable env p s \<Longrightarrow> single_flight s"
proof (induction rule: reachable.induct)
  case (start s)
  then show ?case by (simp add: single_flight_def)
next
  case (after s s')
  then show ?case by (blast intro: transition_single_flight)
qed

lemma rtranclp_reachable:
  "(transition env p)\<^sup>*\<^sup>* s s' \<Longrightarrow> reachable env p s \<Longrightarrow> reachable env p s'"
  by (induction rule: rtranclp_induct) (auto intro: reachable.after)

text \<open>The timer variant.\<close>

lemma timer_callback_busy:
  "busy st \<Longrightarrow> timer_callback p st = (False, st\<lparr>trace := trace st @ [Timer (retry_when_busy p)]\<rparr>)"
  by (simp add: timer_callback_def Let_def)

lemma timer_callback_clear:
  "\<not> busy st \<Longrightarrow>
   timer_callback p st =
     (True, st\<lparr>trace := trace st @ [Timer (retry_when_busy p)], busy := True\<rparr>)"
  by (simp add: timer_callback_def Let_def)

lemma tick_busy:
  "busy (shared s) \<Longrightarrow>
   tick p u s = s\<lparr>shared := (shared s)\<lparr>trace := trace (shared s) @ [Timer (retry_when_busy p)]\<rparr>,
                  attempts := (attempts s)(u := Skipped)\<rparr>"
  by (simp add: tick_def timer_callback_busy)

lemma tick_clear:
  "\<not> busy (shared s) \<Longrightarrow>
   tick p u s = s\<lparr>shared := (shared s)\<lparr>trace := trace (shared s) @ [Timer (retry_when_busy p)],
                                       busy := True\<rparr>,
                  attempts := (attempts s)(u := Sweeping)\<rparr>"
  by (simp add: tick_def timer_callback_clear)

lemma timer_transition_one_worker:
  "timer_transition env p s s' \<Longrightarrow> one_worker s \<Longrightarrow> one_worker s'"
proof (induction rule: timer_transition.induct)
  case (ticking s t)
  show ?case
  proof (cases "busy (shared s)")
    case True
    have same: "((attempts s)(t := Skipped)) v = Sweeping \<longleftrightarrow> attempts s v = Sweeping" for v
      using ticking.hyps by simp
    show ?thesis
      using ticking.prems same True by (simp add: one_worker_def tick_busy)
  next
    case False
    then have none: "attempts s v \<noteq> Sweeping" for v
      using ticking.prems by (auto simp: one_worker_def)
    have only: "((attempts s)(t := Sweeping)) v = Sweeping \<longleftrightarrow> v = t" for v
      using none [of v] by simp
    show ?thesis
      using only False by (simp add: one_worker_def tick_clear)
  qed
next
  case (working s t st')
  then show ?case
    using sweep_step_busy [of env p "shared s" st'] by (simp add: one_worker_def)
next
  case (publishing s t v evs)
  then show ?case by (simp add: one_worker_def)
next
  case (finishing s t)
  then have only: "attempts s v = Sweeping \<Longrightarrow> v = t" for v
    by (auto simp: one_worker_def)
  have none: "((attempts s)(t := Returned)) v \<noteq> Sweeping" for v
    using only [of v] by auto
  show ?case
    using none by (simp add: one_worker_def finish_def)
next
  case (escaping s t)
  then have only: "attempts s v = Sweeping \<Longrightarrow> v = t" for v
    by (auto simp: one_worker_def)
  have none: "((attempts s)(t := Returned)) v \<noteq> Sweeping" for v
    using only [of v] by auto
  show ?case
    using none by (simp add: one_worker_def)
next
  case (requesting s rs)
  then show ?case by (simp add: one_worker_def)
qed

lemma timer_reachable_one_worker: "timer_reachable env p s \<Longrightarrow> one_worker s"
proof (induction rule: timer_reachable.induct)
  case (constructed s)
  then show ?case by (simp add: one_worker_def)
next
  case (later s s')
  then show ?case by (blast intro: timer_transition_one_worker)
qed

lemma rtranclp_timer_reachable:
  "(timer_transition env p)\<^sup>*\<^sup>* s s' \<Longrightarrow> timer_reachable env p s \<Longrightarrow> timer_reachable env p s'"
  by (induction rule: rtranclp_induct) (auto intro: timer_reachable.later)

lemma working_run:
  "(sweep_step env p)\<^sup>*\<^sup>* st0 st' \<Longrightarrow> attempts s t = Sweeping \<Longrightarrow> shared s = st0 \<Longrightarrow>
   (timer_transition env p)\<^sup>*\<^sup>* s (s\<lparr>shared := st'\<rparr>)"
proof (induction rule: rtranclp_induct)
  case base
  then have "s\<lparr>shared := st0\<rparr> = s"
    by (cases s) auto
  then show ?case by simp
next
  case (step y z)
  have "timer_transition env p (s\<lparr>shared := y\<rparr>) (s\<lparr>shared := y\<rparr>\<lparr>shared := z\<rparr>)"
    using step.hyps(2) step.prems(1) by (intro timer_transition.working [of _ t]) simp_all
  then show ?case
    using step by (simp add: rtranclp.rtrancl_into_rtrancl)
qed

lemma worker_try_run: "(sweep_step env p)\<^sup>*\<^sup>* st (snd (worker_try env p arr st))"
proof -
  obtain x st' where out: "send_const env p arr st = (x, st')"
    by (cases "send_const env p arr st") auto
  have run: "(sweep_step env p)\<^sup>*\<^sup>* st st'"
    using sweep_run [of env p st "mainloop env" arr] out by (simp add: send_const_def)
  show ?thesis
  proof (cases x)
    case None
    then show ?thesis
      using run out by (simp add: worker_try_returns)
  next
    case (Some e)
    have "sweep_step env p st' (st'\<lparr>trace := trace st' @ [Warn (worker_warning e)]\<rparr>)"
      by (rule sweep_step.report)
    then show ?thesis
      using run out Some by (simp add: worker_try_catches)
  qed
qed

lemma worker_notify_publishes:
  "\<exists>v evs. snd (worker_notify env p st) = st\<lparr>retry_state := v, trace := trace st @ evs\<rparr>"
proof (cases "retry_notify p \<and> configured (pending p) \<and> systemservice env")
  case False
  have "st = st\<lparr>retry_state := retry_state st, trace := trace st @ []\<rparr>"
    by simp
  moreover have "snd (worker_notify env p st) = st"
    using False by (auto simp: worker_notify_def)
  ultimately show ?thesis
    by metis
next
  case True
  define st1 where "st1 = (case retry_state st of None \<Rightarrow> st
                           | Some _ \<Rightarrow> st\<lparr>trace := trace st @ [Deactivate]\<rparr>)"
  obtain evs1 where st1: "st1 = st\<lparr>trace := trace st @ evs1\<rparr>"
  proof (cases "retry_state st")
    case None
    then have "st1 = st\<lparr>trace := trace st @ []\<rparr>"
      by (simp add: st1_def)
    then show ?thesis by (rule that)
  next
    case (Some a)
    then have "st1 = st\<lparr>trace := trace st @ [Deactivate]\<rparr>"
      by (simp add: st1_def)
    then show ?thesis by (rule that)
  qed
  obtain x evs where c: "count env p (queue st1) = (x, evs)"
    by (cases "count env p (queue st1)") auto
  show ?thesis
  proof (cases x)
    case (Inl e)
    then have "snd (worker_notify env p st) = st1\<lparr>trace := trace st1 @ evs\<rparr>"
      using True c by (simp add: worker_notify_def st1_def Let_def)
    then have "snd (worker_notify env p st) =
        st\<lparr>retry_state := retry_state st, trace := trace st @ (evs1 @ evs)\<rparr>"
      by (simp add: st1)
    then show ?thesis by blast
  next
    case (Inr n)
    then have "snd (worker_notify env p st) =
        st1\<lparr>retry_state := Some n, trace := trace st1 @ evs @ [Activate (summary (SQLState n))]\<rparr>"
      using True c by (simp add: worker_notify_def st1_def Let_def)
    then have "snd (worker_notify env p st) =
        st\<lparr>retry_state := Some n,
           trace := trace st @ (evs1 @ evs @ [Activate (summary (SQLState n))])\<rparr>"
      by (simp add: st1)
    then show ?thesis by blast
  qed
qed

lemma worker_notify_busy: "busy (snd (worker_notify env p st)) = busy st"
proof -
  obtain v evs where "snd (worker_notify env p st) = st\<lparr>retry_state := v, trace := trace st @ evs\<rparr>"
    using worker_notify_publishes by blast
  then show ?thesis by simp
qed

lemma worker_try_None: "fst (worker_try env p arr st) = None"
  by (simp add: worker_try_def split: prod.split option.split exn.split)

text \<open>A whole worker task, with nothing in between, is a path of the system.\<close>

lemma worker_run:
  assumes "attempts s t = Sweeping"
  shows "(timer_transition env p)\<^sup>*\<^sup>* s
     (s\<lparr>shared := snd (worker env p arr (shared s)),
        attempts := (attempts s)(t := Returned)\<rparr>)"
proof -
  obtain st1 where t: "worker_try env p arr (shared s) = (None, st1)"
    using worker_try_None [of env p arr "shared s"] by (cases "worker_try env p arr (shared s)") simp
  let ?s1 = "s\<lparr>shared := st1\<rparr>"
  obtain x st2 where n: "worker_notify env p st1 = (x, st2)"
    by (cases "worker_notify env p st1") auto
  let ?s2 = "s\<lparr>shared := st2\<rparr>"
  have "(sweep_step env p)\<^sup>*\<^sup>* (shared s) st1"
    using worker_try_run [of env p "shared s" arr] t by simp
  then have a: "(timer_transition env p)\<^sup>*\<^sup>* s ?s1"
    using assms by (rule working_run) simp
  obtain v evs where "st2 = st1\<lparr>retry_state := v, trace := trace st1 @ evs\<rparr>"
    using worker_notify_publishes [of env p st1] n by auto
  then have "?s2 = ?s1\<lparr>shared := (shared ?s1)\<lparr>retry_state := v, trace := trace (shared ?s1) @ evs\<rparr>\<rparr>"
    by simp
  moreover have "timer_transition env p ?s1
      (?s1\<lparr>shared := (shared ?s1)\<lparr>retry_state := v, trace := trace (shared ?s1) @ evs\<rparr>\<rparr>)"
    using assms by (intro timer_transition.publishing [of _ t]) simp
  ultimately have b: "timer_transition env p ?s1 ?s2"
    by simp
  have ab: "(timer_transition env p)\<^sup>*\<^sup>* s ?s2"
    using a b by (rule rtranclp.rtrancl_into_rtrancl)
  show ?thesis
  proof (cases x)
    case None
    have "timer_transition env p ?s2 (finish p t ?s2)"
      using assms by (intro timer_transition.finishing) simp
    moreover have "finish p t ?s2 =
        s\<lparr>shared := snd (worker env p arr (shared s)), attempts := (attempts s)(t := Returned)\<rparr>"
      using None n t by (simp add: finish_def worker_def)
    ultimately show ?thesis
      using ab by (simp add: rtranclp.rtrancl_into_rtrancl)
  next
    case (Some e)
    have "timer_transition env p ?s2 (?s2\<lparr>attempts := (attempts ?s2)(t := Returned)\<rparr>)"
      using assms by (intro timer_transition.escaping) simp
    moreover have "?s2\<lparr>attempts := (attempts ?s2)(t := Returned)\<rparr> =
        s\<lparr>shared := snd (worker env p arr (shared s)), attempts := (attempts s)(t := Returned)\<rparr>"
      using Some n t by (simp add: worker_def)
    ultimately show ?thesis
      using ab by (simp add: rtranclp.rtrancl_into_rtrancl)
  qed
qed

subsection \<open>Evaluating concrete runs\<close>

lemmas demo_defs = demo_env_def demo_protocol_def row_a_def row_b_def row_c_def idle_def

lemmas run_defs = send_def send_const_def acquire_def release_def sweep_def loop.simps step_def
  reset_def ScanPending_def iteration_def deliver_def Delete_def Insert_def

section \<open>The claims\<close>

text \<open>
  C1, as stated: a queued request whose method is neither GET nor POST stays in
  the queue. It does not: the request of the example with the method PUT is gone after
  one sweep, in both variants.
\<close>

theorem unknown_verb_counterexample:
  "MethodFactory demo_env (action row_c) = Inr Other \<and> row_c \<in> set (queue (idle [row_c]))
   \<and> row_c \<notin> set (queue (snd (send demo_env demo_protocol [] (idle [row_c]))))
   \<and> row_c \<notin> set (queue (snd (send_const demo_env demo_protocol [] (idle [row_c]))))"
  by (simp add: demo_defs run_defs)

text \<open>
  C1, amended: for a queued request whose method resolves to neither GET nor POST,
  the iteration logs the error "Unexpected verb ..., ignoring", makes no HTTP call and
  then deletes the request like a delivered one (provided the client object can be
  built and the store executes the delete); the loop goes on with its next test from
  that state.
\<close>

theorem unknown_verb_is_logged_and_removed:
  assumes "Client env i (url r) = None" and "MethodFactory env (action r) = Inr Other"
    and "exec_fault env (rid r) = None"
  shows "(let st1 = st\<lparr>queue := Delete (rid r) (queue st),
                       trace := trace st @
                         [Err (unexpected_verb (action r)), Sql (del p), Sleep (send_delay p)]\<rparr>
          in iteration env p i r st = (None, st1) \<and> r \<notin> set (queue st1)
             \<and> calls (trace st1) = calls (trace st))
         \<and> (step_fault env i = None \<and> chk i \<and> step (queue st) None = r # rs \<longrightarrow>
              loop env chk p i arr None st =
              loop env chk p (Suc i) (tl arr) None
                (st\<lparr>queue := Insert (case arr of [] \<Rightarrow> [] | a # _ \<Rightarrow> a) (Delete (rid r) (queue st)),
                    trace := trace st @
                      [Sql (select p), Err (unexpected_verb (action r)),
                       Sql (del p), Sleep (send_delay p)]\<rparr>))"
proof -
  have c: "completes env i r"
    using assms by (simp add: completes_def deliver_Other)
  have it: "iteration env p i r s =
      (None, s\<lparr>queue := Delete (rid r) (queue s),
                trace := trace s @
                  [Err (unexpected_verb (action r)), Sql (del p), Sleep (send_delay p)]\<rparr>)" for s
    using assms c by (simp add: iteration_completes served_def)
  have body: "let st1 = st\<lparr>queue := Delete (rid r) (queue st),
                       trace := trace st @
                         [Err (unexpected_verb (action r)), Sql (del p), Sleep (send_delay p)]\<rparr>
          in iteration env p i r st = (None, st1) \<and> r \<notin> set (queue st1)
             \<and> calls (trace st1) = calls (trace st)"
    using it [of st] by (simp add: not_in_Delete Let_def calls_append)
  have continues: "step_fault env i = None \<and> chk i \<and> step (queue st) None = r # rs \<longrightarrow>
              loop env chk p i arr None st =
              loop env chk p (Suc i) (tl arr) None
                (st\<lparr>queue := Insert (case arr of [] \<Rightarrow> [] | a # _ \<Rightarrow> a) (Delete (rid r) (queue st)),
                    trace := trace st @
                      [Sql (select p), Err (unexpected_verb (action r)),
                       Sql (del p), Sleep (send_delay p)]\<rparr>)"
  proof
    assume h: "step_fault env i = None \<and> chk i \<and> step (queue st) None = r # rs"
    note n = loop_next [where chk = chk and arr = arr and cur = None and st = st and r = r
        and rs = rs and env = env and p = p and i = i,
        OF _ _ _ it [of "st\<lparr>trace := trace st @ [Sql (select p)]\<rparr>"]]
    have "loop env chk p i arr None st =
        loop env chk p (Suc i) (tl arr) None
          ((st\<lparr>trace := trace st @ [Sql (select p)],
                queue := Delete (rid r) (queue (st\<lparr>trace := trace st @ [Sql (select p)]\<rparr>)),
                trace := trace (st\<lparr>trace := trace st @ [Sql (select p)]\<rparr>) @
                  [Err (unexpected_verb (action r)), Sql (del p), Sleep (send_delay p)]\<rparr>)
             \<lparr>queue := Insert (case arr of [] \<Rightarrow> [] | a # _ \<Rightarrow> a)
                (queue (st\<lparr>trace := trace st @ [Sql (select p)],
                  queue := Delete (rid r) (queue (st\<lparr>trace := trace st @ [Sql (select p)]\<rparr>)),
                  trace := trace (st\<lparr>trace := trace st @ [Sql (select p)]\<rparr>) @
                    [Err (unexpected_verb (action r)), Sql (del p), Sleep (send_delay p)]\<rparr>))\<rparr>)"
      using h by (intro n) simp_all
    then show "loop env chk p i arr None st =
              loop env chk p (Suc i) (tl arr) None
                (st\<lparr>queue := Insert (case arr of [] \<Rightarrow> [] | a # _ \<Rightarrow> a) (Delete (rid r) (queue st)),
                    trace := trace st @
                      [Sql (select p), Err (unexpected_verb (action r)),
                       Sql (del p), Sleep (send_delay p)]\<rparr>)"
      by (cases st) simp
  qed
  show ?thesis
    using body continues by (rule conjI)
qed

theorem unknown_verb_is_logged_and_removed_witness:
  "queue (snd (iteration demo_env demo_protocol 0 row_c (idle [row_c]))) = []
   \<and> trace (snd (iteration demo_env demo_protocol 0 row_c (idle [row_c]))) =
       [Err (unexpected_verb ''PUT''), Sql (del demo_protocol), Sleep 1]"
  using unknown_verb_is_logged_and_removed
          [where env = demo_env and i = 0 and r = row_c and p = demo_protocol and st = "idle [row_c]"]
  by (simp add: demo_defs Delete_def Let_def)

text \<open>
  C2, as stated: after a sweep that aborted at a transport error, a following sweep
  in which the transport succeeds delivers every request that was left. It does not
  when one of them has a method other than GET and POST: in the example the POST of
  the second request fails in the first sweep, which leaves the second and the third
  request queued; in the following sweep every call succeeds, the third request (PUT) is
  deleted, and no call was ever made for it. The calls of the two sweeps are the GET of
  the first request and the POST of the second, twice. The worker task of the timer
  variant does the same.
\<close>

theorem transport_failure_counterexample:
  "ascending [row_a, row_b, row_c]
   \<and> raises down_env 1 row_b
   \<and> queue (snd (send down_env demo_protocol [] (idle [row_a, row_b, row_c]))) = [row_b, row_c]
   \<and> completes_from demo_env 0 [row_b, row_c]
   \<and> queue (snd (send demo_env demo_protocol []
        (snd (send down_env demo_protocol [] (idle [row_a, row_b, row_c]))))) = []
   \<and> calls (trace (snd (send demo_env demo_protocol []
        (snd (send down_env demo_protocol [] (idle [row_a, row_b, row_c])))))) =
       [(Get, url row_a, []), (Post, url row_b, payload row_b), (Post, url row_b, payload row_b)]
   \<and> queue (snd (worker_try demo_env demo_protocol []
        (snd (worker_try down_env demo_protocol []
               ((idle [row_a, row_b, row_c])\<lparr>busy := True\<rparr>))))) = []
   \<and> calls (trace (snd (worker_try demo_env demo_protocol []
        (snd (worker_try down_env demo_protocol []
               ((idle [row_a, row_b, row_c])\<lparr>busy := True\<rparr>)))))) =
       [(Get, url row_a, []), (Post, url row_b, payload row_b), (Post, url row_b, payload row_b)]"
  by (simp add: down_env_def demo_defs run_defs worker_try_def ascending_def raises_def
        completes_def)

text \<open>
  C2, amended: the queue holds \<open>pre @ r # post\<close> in ascending id order, the store
  works and the event loop runs; the HTTP part completes in the iterations for the rows
  of \<open>pre\<close> and throws in the iteration for \<open>r\<close> (the same request may well occur in
  \<open>pre\<close>). Then the sweep deletes exactly the rows of \<open>pre\<close>, returns normally with a
  warning, and \<open>r # post\<close> is still queued. A following sweep in which the HTTP part
  completes in every iteration takes these rows in this order: for each one with the
  method GET or POST it makes that call, for each other one it logs "Unexpected verb"
  and makes no call, and it deletes every one of them; its HTTP calls are exactly the
  calls of the GET and POST rows of \<open>r # post\<close>, in order. The same holds for the \<open>try\<close>
  statement of the worker task of the timer variant, with its own warning, whatever
  the busy flag is.
\<close>

theorem transport_failure_keeps_the_rest:
  assumes "store_ok env" and "running env" and "store_ok env'" and "running env'"
    and "ascending (pre @ r # post)"
    and "completes_from env 0 pre" and "raises env (length pre) r"
    and "completes_from env' 0 (r # post)"
    and "\<not> busy st" and "queue st = pre @ r # post" and "queue wst = pre @ r # post"
  shows "\<exists>e. snd (deliver env (length pre) r) = Some e \<and>
           send env p [] st =
             (None, st\<lparr>queue := r # post,
                        trace := trace st @ concat (map (handled env p) pre)
                                   @ Sql (select p) # fst (deliver env (length pre) r)
                                   @ [Warn (send_warning e)]\<rparr>)
           \<and> (let st1 = snd (send env p [] st)
              in send env' p [] st1 =
                   (None, st1\<lparr>queue := [],
                               trace := trace st1 @ concat (map (handled env' p) (r # post))
                                          @ [Sql (select p)]\<rparr>)
                 \<and> calls (trace (snd (send env' p [] st1))) =
                     calls (trace st1) @ concat (map (requests env') (r # post)))
           \<and> worker_try env p [] wst =
             (None, wst\<lparr>queue := r # post,
                         trace := trace wst @ concat (map (handled env p) pre)
                                    @ Sql (select p) # fst (deliver env (length pre) r)
                                    @ [Warn (worker_warning e)]\<rparr>)
           \<and> (let wst1 = snd (worker_try env p [] wst)
              in worker_try env' p [] wst1 =
                   (None, wst1\<lparr>queue := [],
                                trace := trace wst1 @ concat (map (handled env' p) (r # post))
                                           @ [Sql (select p)]\<rparr>)
                 \<and> calls (trace (snd (worker_try env' p [] wst1))) =
                     calls (trace wst1) @ concat (map (requests env') (r # post)))"
proof -
  obtain e where e: "snd (deliver env (length pre) r) = Some e"
    using assms(7) by (auto simp: raises_def)
  let ?st1 = "st\<lparr>queue := r # post,
                   trace := trace st @ concat (map (handled env p) pre)
                              @ Sql (select p) # fst (deliver env (length pre) r)
                              @ [Warn (send_warning e)]\<rparr>"
  have first: "send env p [] st = (None, ?st1)"
    using assms(1,2,5,6) e assms(9,10) by (rule send_aborts)
  have asc: "ascending (r # post)"
    using assms(5) by (simp add: ascending_def sorted_wrt_append)
  have second: "send env' p [] ?st1 =
      (None, ?st1\<lparr>queue := [],
                   trace := trace ?st1 @ concat (map (handled env' p) (r # post))
                              @ [Sql (select p)]\<rparr>)"
    using assms(3,4) asc assms(8) by (rule send_drains) (simp_all add: assms(9))
  have third: "calls (trace (snd (send env' p [] ?st1))) =
      calls (trace ?st1) @ concat (map (requests env') (r # post))"
    unfolding second by (simp add: calls_append calls_concat_handled calls_handled)
  have ml: "\<forall>i. mainloop env i" "\<forall>i. mainloop env' i"
    using assms(2,4) by (simp_all add: running_def)
  let ?wt1 = "wst\<lparr>queue := r # post,
                    trace := trace wst @ concat (map (handled env p) pre)
                               @ Sql (select p) # fst (deliver env (length pre) r)
                               @ [Warn (worker_warning e)]\<rparr>"
  have fourth: "worker_try env p [] wst = (None, ?wt1)"
    using assms(1) ml(1) assms(5,6) e assms(11) by (rule worker_try_aborts)
  have fifth: "worker_try env' p [] ?wt1 =
      (None, ?wt1\<lparr>queue := [],
                   trace := trace ?wt1 @ concat (map (handled env' p) (r # post))
                              @ [Sql (select p)]\<rparr>)"
    using assms(3) ml(2) asc assms(8) by (rule worker_try_drains) simp
  have sixth: "calls (trace (snd (worker_try env' p [] ?wt1))) =
      calls (trace ?wt1) @ concat (map (requests env') (r # post))"
    unfolding fifth by (simp add: calls_append calls_concat_handled calls_handled)
  show ?thesis
    using e first second third fourth fifth sixth by (intro exI [of _ e]) (simp add: Let_def)
qed

theorem transport_failure_keeps_the_rest_witness:
  "queue (snd (send down_env demo_protocol [] (idle [row_a, row_b, row_c]))) = [row_b, row_c]
   \<and> queue (snd (send demo_env demo_protocol []
        (snd (send down_env demo_protocol [] (idle [row_a, row_b, row_c]))))) = []
   \<and> queue (snd (worker_try down_env demo_protocol []
        ((idle [row_a, row_b, row_c])\<lparr>busy := True\<rparr>))) = [row_b, row_c]
   \<and> queue (snd (worker_try demo_env demo_protocol []
        (snd (worker_try down_env demo_protocol []
               ((idle [row_a, row_b, row_c])\<lparr>busy := True\<rparr>))))) = []"
proof -
  have h: "store_ok down_env" "running down_env" "store_ok demo_env" "running demo_env"
      "ascending ([row_a] @ row_b # [row_c])" "completes_from down_env 0 [row_a]"
      "raises down_env (length [row_a]) row_b" "completes_from demo_env 0 (row_b # [row_c])"
      "\<not> busy (idle [row_a, row_b, row_c])"
      "queue (idle [row_a, row_b, row_c]) = [row_a] @ row_b # [row_c]"
      "queue ((idle [row_a, row_b, row_c])\<lparr>busy := True\<rparr>) = [row_a] @ row_b # [row_c]"
    by (simp_all add: down_env_def demo_defs store_ok_def running_def ascending_def
          completes_def raises_def deliver_def)
  show ?thesis
    using transport_failure_keeps_the_rest [OF h, of demo_protocol] by (auto simp: Let_def)
qed

text \<open>
  C3. Guarded variant: a call of \<open>send()\<close> that finds the busy flag clear sets it and
  runs the sweep, then clears it; a call that finds it set returns with the state as it
  was: no statement executed, no row touched. Every such call is a path of the
  interleaved system, and in every reachable state of that system at most one attempt
  sweeps and the flag is set exactly then; so while an attempt sweeps every other
  attempt that enters is turned away, and an attempt that finds the flag clear is the
  one that gets in. Timer variant: the callback that finds the flag clear sets it and
  pushes the worker task, the one that finds it set only re-arms the timer; every run
  of the worker task is a path of the system, in every reachable state at most one
  task sweeps, with the flag set, and while it does every further callback skips.
\<close>

theorem single_flight_sweeps:
  "(reachable env p s \<longrightarrow> single_flight s)
   \<and> (fst (acquire st) \<longleftrightarrow> \<not> busy st) \<and> busy (snd (acquire st))
   \<and> (busy st \<longrightarrow> send env p arr st = (None, st))
   \<and> (\<not> busy st \<longrightarrow>
        send env p arr st =
          (None, release (caught (sweep env (\<lambda>i. mainloop env i \<and> verify env i) p arr
                                    (st\<lparr>busy := True\<rparr>)))))
   \<and> (attempts s t = Calling \<longrightarrow>
        (transition env p)\<^sup>*\<^sup>* s
          (s\<lparr>shared := snd (send env p arr (shared s)),
             attempts := (attempts s)(t := if busy (shared s) then Skipped else Returned)\<rparr>))
   \<and> (reachable env p s \<and> attempts s t = Sweeping \<and> u \<noteq> t \<longrightarrow>
        enter u s = s\<lparr>attempts := (attempts s)(u := Skipped)\<rparr>)
   \<and> (\<not> busy (shared s) \<longrightarrow>
        enter u s = s\<lparr>shared := (shared s)\<lparr>busy := True\<rparr>,
                      attempts := (attempts s)(u := Sweeping)\<rparr>)
   \<and> (timer_reachable env p s \<longrightarrow> one_worker s)
   \<and> (busy st \<longrightarrow>
        timer_callback p st = (False, st\<lparr>trace := trace st @ [Timer (retry_when_busy p)]\<rparr>))
   \<and> (\<not> busy st \<longrightarrow>
        timer_callback p st =
          (True, st\<lparr>trace := trace st @ [Timer (retry_when_busy p)], busy := True\<rparr>))
   \<and> (attempts s t = Sweeping \<longrightarrow>
        (timer_transition env p)\<^sup>*\<^sup>* s
          (s\<lparr>shared := snd (worker env p arr (shared s)),
             attempts := (attempts s)(t := Returned)\<rparr>))
   \<and> (timer_reachable env p s \<and> attempts s t = Sweeping \<and> u \<noteq> t \<longrightarrow>
        tick p u s =
          s\<lparr>shared := (shared s)\<lparr>trace := trace (shared s) @ [Timer (retry_when_busy p)]\<rparr>,
            attempts := (attempts s)(u := Skipped)\<rparr>)
   \<and> (\<not> busy (shared s) \<longrightarrow>
        tick p u s =
          s\<lparr>shared := (shared s)\<lparr>trace := trace (shared s) @ [Timer (retry_when_busy p)],
                                   busy := True\<rparr>,
            attempts := (attempts s)(u := Sweeping)\<rparr>)"
proof (intro conjI impI)
  show "single_flight s" if "reachable env p s"
    using that by (rule reachable_single_flight)
  show "fst (acquire st) \<longleftrightarrow> \<not> busy st" and "busy (snd (acquire st))"
    by (simp_all add: acquire_def)
  show "send env p arr st = (None, st)" if "busy st"
    using that by (rule send_busy)
  show "send env p arr st =
          (None, release (caught (sweep env (\<lambda>i. mainloop env i \<and> verify env i) p arr
                                    (st\<lparr>busy := True\<rparr>))))" if "\<not> busy st"
    using that by (rule send_clear)
  show "(transition env p)\<^sup>*\<^sup>* s
          (s\<lparr>shared := snd (send env p arr (shared s)),
             attempts := (attempts s)(t := if busy (shared s) then Skipped else Returned)\<rparr>)"
    if "attempts s t = Calling"
    using that by (rule send_run)
  show "enter u s = s\<lparr>attempts := (attempts s)(u := Skipped)\<rparr>"
    if "reachable env p s \<and> attempts s t = Sweeping \<and> u \<noteq> t"
  proof -
    have "reachable env p s"
      using that by simp
    then have "single_flight s"
      by (rule reachable_single_flight)
    then have "busy (shared s)"
      using that by (auto simp: single_flight_def)
    then show ?thesis
      by (rule enter_busy)
  qed
  show "enter u s = s\<lparr>shared := (shared s)\<lparr>busy := True\<rparr>,
                      attempts := (attempts s)(u := Sweeping)\<rparr>" if "\<not> busy (shared s)"
    using that by (rule enter_clear)
  show "one_worker s" if "timer_reachable env p s"
    using that by (rule timer_reachable_one_worker)
  show "timer_callback p st = (False, st\<lparr>trace := trace st @ [Timer (retry_when_busy p)]\<rparr>)"
    if "busy st"
    using that by (rule timer_callback_busy)
  show "timer_callback p st =
          (True, st\<lparr>trace := trace st @ [Timer (retry_when_busy p)], busy := True\<rparr>)"
    if "\<not> busy st"
    using that by (rule timer_callback_clear)
  show "(timer_transition env p)\<^sup>*\<^sup>* s
          (s\<lparr>shared := snd (worker env p arr (shared s)),
             attempts := (attempts s)(t := Returned)\<rparr>)" if "attempts s t = Sweeping"
    using that by (rule worker_run)
  show "tick p u s =
          s\<lparr>shared := (shared s)\<lparr>trace := trace (shared s) @ [Timer (retry_when_busy p)]\<rparr>,
            attempts := (attempts s)(u := Skipped)\<rparr>"
    if "timer_reachable env p s \<and> attempts s t = Sweeping \<and> u \<noteq> t"
  proof -
    have "timer_reachable env p s"
      using that by simp
    then have "one_worker s"
      by (rule timer_reachable_one_worker)
    then have "busy (shared s)"
      using that by (auto simp: one_worker_def)
    then show ?thesis
      by (rule tick_busy)
  qed
  show "tick p u s =
          s\<lparr>shared := (shared s)\<lparr>trace := trace (shared s) @ [Timer (retry_when_busy p)],
                                   busy := True\<rparr>,
            attempts := (attempts s)(u := Sweeping)\<rparr>" if "\<not> busy (shared s)"
    using that by (rule tick_clear)
qed

theorem single_flight_sweeps_witness:
  "reachable demo_env demo_protocol one_in \<and> single_flight one_in
   \<and> enter 1 (enter 0 callers) = one_in
   \<and> send demo_env demo_protocol [] (idle [row_a]) =
       (None, (idle [row_a])\<lparr>queue := [],
                trace := [Sql (select demo_protocol), Http Get (url row_a) [],
                          Sql (del demo_protocol), Sleep 1, Sql (select demo_protocol)]\<rparr>)
   \<and> send demo_env demo_protocol [] ((idle [row_a])\<lparr>busy := True\<rparr>) =
       (None, (idle [row_a])\<lparr>busy := True\<rparr>)
   \<and> (transition demo_env demo_protocol)\<^sup>*\<^sup>* callers
        (callers\<lparr>shared := snd (send demo_env demo_protocol [] (idle [row_a])),
                 attempts := (attempts callers)(0 := Returned)\<rparr>)
   \<and> timer_reachable demo_env demo_protocol (tick demo_protocol 1 (tick demo_protocol 0 callers))
   \<and> one_worker (tick demo_protocol 1 (tick demo_protocol 0 callers))
   \<and> tick demo_protocol 1 (tick demo_protocol 0 callers) =
       \<lparr>shared = (idle [row_a])\<lparr>busy := True, trace := [Timer 5000, Timer 5000]\<rparr>,
        attempts = (\<lambda>_. Calling)(0 := Sweeping, 1 := Skipped)\<rparr>
   \<and> (timer_transition demo_env demo_protocol)\<^sup>*\<^sup>* (tick demo_protocol 0 callers)
        ((tick demo_protocol 0 callers)
           \<lparr>shared := snd (worker demo_env demo_protocol [] (shared (tick demo_protocol 0 callers))),
            attempts := (attempts (tick demo_protocol 0 callers))(0 := Returned)\<rparr>)
   \<and> queue (snd (worker demo_env demo_protocol [] (shared (tick demo_protocol 0 callers)))) = []"
proof -
  note a = single_flight_sweeps [where env = demo_env and p = demo_protocol and s = callers
      and st = "idle [row_a]" and arr = "[]" and t = "0::nat" and u = "0::nat"]
  note b = single_flight_sweeps [where env = demo_env and p = demo_protocol
      and s = "enter 0 callers" and st = "(idle [row_a])\<lparr>busy := True\<rparr>" and arr = "[]"
      and t = "0::nat" and u = "1::nat"]
  note c = single_flight_sweeps [where env = demo_env and p = demo_protocol and s = one_in
      and st = "idle [row_a]" and arr = "[]" and t = "0::nat" and u = "1::nat"]
  note d = single_flight_sweeps [where env = demo_env and p = demo_protocol
      and s = "tick demo_protocol 0 callers" and st = "idle [row_a]" and arr = "[]"
      and t = "0::nat" and u = "1::nat"]
  note e = single_flight_sweeps [where env = demo_env and p = demo_protocol
      and s = "tick demo_protocol 1 (tick demo_protocol 0 callers)" and st = "idle [row_a]"
      and arr = "[]" and t = "0::nat" and u = "1::nat"]
  have sc: "shared callers = idle [row_a]" and ac: "attempts callers n = Calling" for n
    by (simp_all add: callers_def)
  have nb: "\<not> busy (idle [row_a])"
    by (simp add: idle_def)
  have nbc: "\<not> busy (shared callers)"
    by (simp add: sc nb)
  have none: "\<forall>n. attempts callers n \<noteq> Sweeping"
    by (simp add: ac)
  have e0: "enter 0 callers =
      callers\<lparr>shared := (shared callers)\<lparr>busy := True\<rparr>,
              attempts := (attempts callers)(0 := Sweeping)\<rparr>"
    by (rule a [THEN conjunct2, THEN conjunct2, THEN conjunct2, THEN conjunct2, THEN conjunct2, THEN conjunct2, THEN conjunct2, THEN conjunct1, THEN mp, OF nbc])
  have r0: "reachable demo_env demo_protocol callers"
    using nbc none by (rule reachable.start)
  have t1: "transition demo_env demo_protocol callers (enter 0 callers)"
    by (rule transition.entering) (rule ac)
  have r1: "reachable demo_env demo_protocol (enter 0 callers)"
    using r0 t1 by (rule reachable.after)
  have sw: "attempts (enter 0 callers) 0 = Sweeping"
    and ca: "attempts (enter 0 callers) 1 = Calling"
    by (simp_all add: e0 ac)
  have e1: "enter 1 (enter 0 callers) =
      (enter 0 callers)\<lparr>attempts := (attempts (enter 0 callers))(1 := Skipped)\<rparr>"
    by (rule b [THEN conjunct2, THEN conjunct2, THEN conjunct2, THEN conjunct2, THEN conjunct2, THEN conjunct2, THEN conjunct1, THEN mp]) (simp add: r1 sw)
  have t2: "transition demo_env demo_protocol (enter 0 callers) (enter 1 (enter 0 callers))"
    by (rule transition.entering) (rule ca)
  have r2: "reachable demo_env demo_protocol (enter 1 (enter 0 callers))"
    using r1 t2 by (rule reachable.after)
  have eq: "enter 1 (enter 0 callers) = one_in"
    by (simp only: e1, simp only: e0, simp add: callers_def one_in_def)
  have r: "reachable demo_env demo_protocol one_in"
    using r2 by (simp only: eq)
  have sf: "single_flight one_in"
    by (rule c [THEN conjunct1, THEN mp, OF r])
  have "send demo_env demo_protocol [] (idle [row_a]) =
      (None, release (caught (sweep demo_env (\<lambda>i. mainloop demo_env i \<and> verify demo_env i)
                                 demo_protocol [] ((idle [row_a])\<lparr>busy := True\<rparr>))))"
    by (rule a [THEN conjunct2, THEN conjunct2, THEN conjunct2, THEN conjunct2, THEN conjunct1, THEN mp, OF nb])
  also have "\<dots> = (None, (idle [row_a])\<lparr>queue := [],
                trace := [Sql (select demo_protocol), Http Get (url row_a) [],
                          Sql (del demo_protocol), Sleep 1, Sql (select demo_protocol)]\<rparr>)"
    by (simp add: demo_defs run_defs caught_def)
  finally have s1: "send demo_env demo_protocol [] (idle [row_a]) =
       (None, (idle [row_a])\<lparr>queue := [],
                trace := [Sql (select demo_protocol), Http Get (url row_a) [],
                          Sql (del demo_protocol), Sleep 1, Sql (select demo_protocol)]\<rparr>)" .
  have s2: "send demo_env demo_protocol [] ((idle [row_a])\<lparr>busy := True\<rparr>) =
       (None, (idle [row_a])\<lparr>busy := True\<rparr>)"
    by (rule b [THEN conjunct2, THEN conjunct2, THEN conjunct2, THEN conjunct1, THEN mp]) simp
  have "(transition demo_env demo_protocol)\<^sup>*\<^sup>* callers
        (callers\<lparr>shared := snd (send demo_env demo_protocol [] (shared callers)),
                 attempts := (attempts callers)(0 := if busy (shared callers) then Skipped
                                                     else Returned)\<rparr>)"
    by (rule a [THEN conjunct2, THEN conjunct2, THEN conjunct2, THEN conjunct2, THEN conjunct2, THEN conjunct1, THEN mp]) (rule ac)
  then have path: "(transition demo_env demo_protocol)\<^sup>*\<^sup>* callers
        (callers\<lparr>shared := snd (send demo_env demo_protocol [] (idle [row_a])),
                 attempts := (attempts callers)(0 := Returned)\<rparr>)"
    by (simp add: sc nb)
  have k0: "tick demo_protocol 0 callers =
      callers\<lparr>shared := (shared callers)
                 \<lparr>trace := trace (shared callers) @ [Timer (retry_when_busy demo_protocol)],
                  busy := True\<rparr>,
              attempts := (attempts callers)(0 := Sweeping)\<rparr>"
    by (rule a [THEN conjunct2, THEN conjunct2, THEN conjunct2, THEN conjunct2, THEN conjunct2, THEN conjunct2, THEN conjunct2, THEN conjunct2, THEN conjunct2, THEN conjunct2, THEN conjunct2, THEN conjunct2, THEN conjunct2, THEN mp, OF nbc])
  have tr0: "timer_reachable demo_env demo_protocol callers"
    using nbc none by (rule timer_reachable.constructed)
  have tt1: "timer_transition demo_env demo_protocol callers (tick demo_protocol 0 callers)"
    by (rule timer_transition.ticking) (simp add: ac)
  have tr1: "timer_reachable demo_env demo_protocol (tick demo_protocol 0 callers)"
    using tr0 tt1 by (rule timer_reachable.later)
  have tsw: "attempts (tick demo_protocol 0 callers) 0 = Sweeping"
    and tca: "attempts (tick demo_protocol 0 callers) 1 \<noteq> Sweeping"
    by (simp_all add: k0 ac)
  have k1: "tick demo_protocol 1 (tick demo_protocol 0 callers) =
      (tick demo_protocol 0 callers)
        \<lparr>shared := (shared (tick demo_protocol 0 callers))
           \<lparr>trace := trace (shared (tick demo_protocol 0 callers))
                       @ [Timer (retry_when_busy demo_protocol)]\<rparr>,
         attempts := (attempts (tick demo_protocol 0 callers))(1 := Skipped)\<rparr>"
    by (rule d [THEN conjunct2, THEN conjunct2, THEN conjunct2, THEN conjunct2, THEN conjunct2, THEN conjunct2, THEN conjunct2, THEN conjunct2, THEN conjunct2, THEN conjunct2, THEN conjunct2, THEN conjunct2, THEN conjunct1, THEN mp]) (simp add: tr1 tsw)
  have tt2: "timer_transition demo_env demo_protocol (tick demo_protocol 0 callers)
      (tick demo_protocol 1 (tick demo_protocol 0 callers))"
    using tca by (rule timer_transition.ticking)
  have tr2: "timer_reachable demo_env demo_protocol
      (tick demo_protocol 1 (tick demo_protocol 0 callers))"
    using tr1 tt2 by (rule timer_reachable.later)
  have ow: "one_worker (tick demo_protocol 1 (tick demo_protocol 0 callers))"
    by (rule e [THEN conjunct2, THEN conjunct2, THEN conjunct2, THEN conjunct2, THEN conjunct2, THEN conjunct2, THEN conjunct2, THEN conjunct2, THEN conjunct1, THEN mp, OF tr2])
  have ex: "tick demo_protocol 1 (tick demo_protocol 0 callers) =
       \<lparr>shared = (idle [row_a])\<lparr>busy := True, trace := [Timer 5000, Timer 5000]\<rparr>,
        attempts = (\<lambda>_. Calling)(0 := Sweeping, 1 := Skipped)\<rparr>"
    by (simp only: k1, simp only: k0, simp add: callers_def idle_def demo_protocol_def)
  have wp: "(timer_transition demo_env demo_protocol)\<^sup>*\<^sup>* (tick demo_protocol 0 callers)
        ((tick demo_protocol 0 callers)
           \<lparr>shared := snd (worker demo_env demo_protocol [] (shared (tick demo_protocol 0 callers))),
            attempts := (attempts (tick demo_protocol 0 callers))(0 := Returned)\<rparr>)"
    by (rule d [THEN conjunct2, THEN conjunct2, THEN conjunct2, THEN conjunct2, THEN conjunct2, THEN conjunct2, THEN conjunct2, THEN conjunct2, THEN conjunct2, THEN conjunct2, THEN conjunct2, THEN conjunct1, THEN mp, OF tsw])
  have wq: "queue (snd (worker demo_env demo_protocol []
      (shared (tick demo_protocol 0 callers)))) = []"
    by (simp only: k0, simp add: callers_def demo_defs run_defs worker_def worker_try_def worker_notify_def
          count_def configured_def)
  show ?thesis
    using r sf eq s1 s2 path tr2 ow ex wp wq by (intro conjI)
qed

text \<open>
  C4. No exception leaves \<open>send()\<close> of the guarded variant, whatever the store, the
  transport and the queue do; so none leaves \<open>retry()\<close>, whose single catch clause
  would let a non-standard exception pass. In the timer variant none leaves the \<open>try\<close>
  statement of the worker task. When the sweep ends with the exception \<open>e\<close>, the last
  event is the warning made from it.
\<close>

theorem sweep_errors_do_not_escape:
  "fst (send env p arr st) = None
   \<and> fst (retry env p arr st) = Inr False
   \<and> fst (worker_try env p arr st) = None
   \<and> (\<not> busy st \<and>
        sweep env (\<lambda>i. mainloop env i \<and> verify env i) p arr (st\<lparr>busy := True\<rparr>) = (Some e, st') \<longrightarrow>
        trace (snd (send env p arr st)) = trace st' @ [Warn (send_warning e)])
   \<and> (send_const env p arr st = (Some e, st') \<longrightarrow>
        (\<exists>w. trace (snd (worker_try env p arr st)) = trace st' @ [Warn w]))"
proof (intro conjI impI)
  show "fst (send env p arr st) = None"
    by (rule send_never_throws)
  show "fst (retry env p arr st) = Inr False"
    using send_never_throws [of env p arr st]
    by (cases "send env p arr st") (simp add: retry_def)
  show "fst (worker_try env p arr st) = None"
    by (simp add: worker_try_def split: prod.splits option.splits exn.splits)
  show "trace (snd (send env p arr st)) = trace st' @ [Warn (send_warning e)]"
    if "\<not> busy st \<and>
        sweep env (\<lambda>i. mainloop env i \<and> verify env i) p arr (st\<lparr>busy := True\<rparr>) = (Some e, st')"
    using that by (simp add: send_catches)
  show "\<exists>w. trace (snd (worker_try env p arr st)) = trace st' @ [Warn w]"
    if "send_const env p arr st = (Some e, st')"
    using that by (cases e) (simp_all add: worker_try_def)
qed

theorem sweep_errors_do_not_escape_witness:
  "trace (snd (send down_env demo_protocol [] (idle [row_b]))) =
     [Sql (select demo_protocol), Http Post (url row_b) (payload row_b),
      Warn ''Error sending queued message: connection refused'']"
proof -
  have "sweep down_env (\<lambda>i. mainloop down_env i \<and> verify down_env i) demo_protocol []
          ((idle [row_b])\<lparr>busy := True\<rparr>)
        = (Some (Exception ''connection refused''),
           (idle [row_b])\<lparr>busy := True,
             trace := [Sql (select demo_protocol), Http Post (url row_b) (payload row_b)]\<rparr>)"
    by (simp add: down_env_def demo_defs run_defs)
  moreover have "\<not> busy (idle [row_b])"
    by (simp add: idle_def)
  ultimately show ?thesis
    using sweep_errors_do_not_escape [of down_env demo_protocol "[]" "idle [row_b]"
        "Exception ''connection refused''"]
    by (simp add: send_warning_def)
qed

text \<open>
  C5, as stated: a row inserted while a sweep is in progress is not seen by that
  sweep. It is: in the example the second request is inserted during the first
  iteration, and the same sweep posts it and deletes it, in both variants.
\<close>

theorem mid_sweep_insert_counterexample:
  "row_b \<notin> set (queue (idle [row_a]))
   \<and> Http Post (url row_b) (payload row_b)
        \<in> set (trace (snd (send demo_env demo_protocol [[row_b]] (idle [row_a]))))
   \<and> queue (snd (send demo_env demo_protocol [[row_b]] (idle [row_a]))) = []
   \<and> queue (snd (send_const demo_env demo_protocol [[row_b]] (idle [row_a]))) = []"
  by (simp add: demo_defs run_defs)

text \<open>
  C5, amended: the loop resets the select statement after every request and steps
  it anew, so every test of the loop condition reads the rows stored at that moment.
  Rows \<open>a\<close> inserted while the (j+1)-th request of a sweep is being handled (for any
  \<open>j\<close> below the number of rows queued at the start) are handled by that same sweep,
  after the rows queued before them, when the store works, the event loop runs and the
  HTTP part completes in every iteration; in the guarded variant and in the worker task
  of the timer variant (which runs with the busy flag set).
\<close>

theorem mid_sweep_insert_is_handled:
  assumes "store_ok env" and "running env" and "j < length q" and "ascending (q @ a)"
    and "completes_from env 0 (q @ a)" and "\<not> busy st" and "queue st = q"
    and "queue wst = q"
  shows "send env p (replicate j [] @ [a]) st =
      (None, st\<lparr>queue := [],
                 trace := trace st @ concat (map (handled env p) (q @ a)) @ [Sql (select p)]\<rparr>)
    \<and> worker_try env p (replicate j [] @ [a]) wst =
      (None, wst\<lparr>queue := [],
                 trace := trace wst @ concat (map (handled env p) (q @ a)) @ [Sql (select p)]\<rparr>)"
proof
  show "send env p (replicate j [] @ [a]) st =
      (None, st\<lparr>queue := [],
                 trace := trace st @ concat (map (handled env p) (q @ a)) @ [Sql (select p)]\<rparr>)"
    using assms(1-7) by (rule send_arrival)
  have "\<forall>i. mainloop env i"
    using assms(2) by (simp add: running_def)
  with assms(1) show "worker_try env p (replicate j [] @ [a]) wst =
      (None, wst\<lparr>queue := [],
                 trace := trace wst @ concat (map (handled env p) (q @ a)) @ [Sql (select p)]\<rparr>)"
    using assms(3,4,5,8) by (rule worker_try_arrival)
qed

theorem mid_sweep_insert_is_handled_witness:
  "send demo_env demo_protocol (replicate 1 [] @ [[row_c]]) (idle [row_a, row_b]) =
      (None, (idle [row_a, row_b])\<lparr>queue := [],
                 trace := trace (idle [row_a, row_b])
                    @ concat (map (handled demo_env demo_protocol) ([row_a, row_b] @ [row_c]))
                    @ [Sql (select demo_protocol)]\<rparr>)
   \<and> worker_try demo_env demo_protocol (replicate 1 [] @ [[row_c]])
        ((idle [row_a, row_b])\<lparr>busy := True\<rparr>) =
      (None, (idle [row_a, row_b])\<lparr>busy := True, queue := [],
                 trace := trace ((idle [row_a, row_b])\<lparr>busy := True\<rparr>)
                    @ concat (map (handled demo_env demo_protocol) ([row_a, row_b] @ [row_c]))
                    @ [Sql (select demo_protocol)]\<rparr>)"
proof -
  have h: "store_ok demo_env" "running demo_env" "1 < length [row_a, row_b]"
      "ascending ([row_a, row_b] @ [row_c])"
      "completes_from demo_env 0 ([row_a, row_b] @ [row_c])"
      "\<not> busy (idle [row_a, row_b])" "queue (idle [row_a, row_b]) = [row_a, row_b]"
      "queue ((idle [row_a, row_b])\<lparr>busy := True\<rparr>) = [row_a, row_b]"
    by (simp_all add: demo_defs store_ok_def running_def ascending_def completes_def deliver_def)
  show ?thesis
    using mid_sweep_insert_is_handled [OF h, of demo_protocol] by simp
qed

text \<open>
  C6. For a pending count \<open>c\<close> in the range of a non-negative \<open>int64_t\<close>, with a pending
  query configured (without one the only count is 0, see C9): \<open>state()\<close> gives the
  empty label for 0, the singular label for 1 and otherwise the plural label that
  starts with the decimal numeral of \<open>c\<close>; so does \<open>SQLState\<close> of the timer variant, with
  its own wording. The numeral reads back as \<open>c\<close>.
\<close>

theorem status_mapping:
  assumes "c < 2 ^ 63" and "configured (pending p) \<or> c = 0"
  shows "summary (state p (word_of_nat c)) =
           (if c = 0 then
              (if configured (pending p) then ''Output queue is empty'' else ''No pending requests'')
            else if c = 1 then ''One pending request in the output queue''
            else dec c @ '' pending requests in the output queue'')
         \<and> summary (SQLState (word_of_nat c)) =
           (if c = 0 then ''No pending messages''
            else if c = 1 then ''1 pending message''
            else dec c @ '' pending messages'')
         \<and> numeral_of (dec c) = c"
proof -
  have z: "(word_of_nat c :: 64 word) = 0 \<longleftrightarrow> c = 0"
    and o: "(word_of_nat c :: 64 word) = 1 \<longleftrightarrow> c = 1"
    and u: "unat (word_of_nat c :: 64 word) = c"
    and s: "sint (word_of_nat c :: 64 word) = int c"
    using assms(1) by (rule count_eq_0 count_eq_1 unat_count sint_count)+
  have "summary (state p (word_of_nat c)) =
           (if c = 0 then
              (if configured (pending p) then ''Output queue is empty'' else ''No pending requests'')
            else if c = 1 then ''One pending request in the output queue''
            else dec c @ '' pending requests in the output queue'')"
    using assms(2) by (auto simp add: state_def z o u Message_pending simp del: Message.simps)
  moreover have "summary (SQLState (word_of_nat c)) =
           (if c = 0 then ''No pending messages''
            else if c = 1 then ''1 pending message''
            else dec c @ '' pending messages'')"
    by (simp add: SQLState_def z o s to_string_def)
  ultimately show ?thesis
    by (simp add: numeral_of_dec)
qed

theorem status_mapping_witness:
  "summary (state demo_protocol 12) = ''12 pending requests in the output queue''
   \<and> summary (SQLState 12) = ''12 pending messages''
   \<and> summary (state demo_protocol 1) = ''One pending request in the output queue''
   \<and> summary (state (demo_protocol\<lparr>pending := Some []\<rparr>) 0) = ''No pending requests''"
  using status_mapping [of 12 demo_protocol] status_mapping [of 1 demo_protocol]
    status_mapping [of 0 "demo_protocol\<lparr>pending := Some []\<rparr>"]
  by (simp add: demo_protocol_def configured_def dec.simps digit_def)

text \<open>
  C7. A queued request whose method resolves to GET or POST, and whose HTTP call
  returns a response (whatever the response is; the loop does not look at it),
  is deleted from the queue by the same iteration, provided the store executes the
  delete statement.
\<close>

theorem delivered_request_is_deleted:
  assumes "Client env i (url r) = None"
    and "(MethodFactory env (action r) = Inr Get \<and> client_get env i (url r) = Inr response) \<or>
         (MethodFactory env (action r) = Inr Post \<and> client_post env i (url r) (payload r) = Inr response)"
    and "exec_fault env (rid r) = None"
  shows "\<exists>st'. iteration env p i r st = (None, st') \<and> queue st' = Delete (rid r) (queue st)
           \<and> r \<notin> set (queue st')"
proof -
  have "completes env i r"
    using assms(1,2) by (auto simp: completes_def deliver_Get deliver_Post)
  then show ?thesis
    using assms(3) by (simp add: iteration_completes not_in_Delete)
qed

theorem delivered_request_is_deleted_witness:
  "\<exists>st'. iteration demo_env demo_protocol 0 row_b (idle [row_a, row_b]) = (None, st')
      \<and> queue st' = Delete (rid row_b) (queue (idle [row_a, row_b]))
      \<and> row_b \<notin> set (queue st')"
  by (rule delivered_request_is_deleted [where response = "''404 Not Found''"])
     (simp_all add: demo_env_def row_b_def)

text \<open>
  C8. Construction throws, and no object exists, when one of the children insert,
  delete, select is missing (the exception names a missing one, and no \<open>init\<close>
  statement has run), and when the three are there and an \<open>init\<close> statement fails.
  With the three there, no pending child and no failing \<open>init\<close> statement it succeeds,
  with an empty pending template.
\<close>

theorem construction_needs_templates_and_init:
  "(nm \<in> {''insert'', ''delete'', ''select''} \<and> child node nm = None \<longrightarrow>
      (\<exists>x\<in>{''insert'', ''delete'', ''select''}.
          Protocol l env node = (Inl (Exception (child_not_found x)), [])))
   \<and> (child node ''insert'' \<noteq> None \<and> child node ''delete'' \<noteq> None \<and> child node ''select'' \<noteq> None
       \<and> (\<exists>c\<in>set (node_children node). node_name c = ''init'' \<and> exec env (init_sql l c) \<noteq> None) \<longrightarrow>
      (\<exists>e evs. Protocol l env node = (Inl e, evs)))
   \<and> (child node ''insert'' \<noteq> None \<and> child node ''delete'' \<noteq> None \<and> child node ''select'' \<noteq> None
       \<and> child node ''pending'' = None
       \<and> (\<forall>c\<in>set (node_children node). node_name c = ''init'' \<longrightarrow> exec env (init_sql l c) = None) \<longrightarrow>
      (\<exists>pr evs. Protocol l env node = (Inr pr, evs) \<and> pending pr = Some []
          \<and> \<not> configured (pending pr)))"
proof (intro conjI impI)
  assume "nm \<in> {''insert'', ''delete'', ''select''} \<and> child node nm = None"
  then consider "child node ''insert'' = None"
    | "child node ''insert'' \<noteq> None" "child node ''delete'' = None"
    | "child node ''insert'' \<noteq> None" "child node ''delete'' \<noteq> None" "child node ''select'' = None"
    by auto
  then show "\<exists>x\<in>{''insert'', ''delete'', ''select''}.
          Protocol l env node = (Inl (Exception (child_not_found x)), [])"
  proof cases
    case 1
    then have "Protocol l env node = (Inl (Exception (child_not_found ''insert'')), [])"
      by (simp add: Protocol_def child_value_required)
    then show ?thesis by blast
  next
    case 2
    then have "Protocol l env node = (Inl (Exception (child_not_found ''delete'')), [])"
      by (auto simp: Protocol_def child_value_required)
    then show ?thesis by blast
  next
    case 3
    then have "Protocol l env node = (Inl (Exception (child_not_found ''select'')), [])"
      by (auto simp: Protocol_def child_value_required)
    then show ?thesis by blast
  qed
next
  let ?inits = "filter (\<lambda>c. node_name c = ''init'') (node_children node)"
  assume h: "child node ''insert'' \<noteq> None \<and> child node ''delete'' \<noteq> None \<and> child node ''select'' \<noteq> None
       \<and> (\<exists>c\<in>set (node_children node). node_name c = ''init'' \<and> exec env (init_sql l c) \<noteq> None)"
  then have "\<exists>c\<in>set ?inits. exec env (init_sql l c) \<noteq> None"
    by auto
  then obtain e evs where "init_loop l env ?inits = (Some e, evs)"
    using init_loop_fails by blast
  moreover obtain t where "child_value l node ''pending'' False = Inr t"
    using child_value_optional_Inr by blast
  ultimately have "Protocol l env node = (Inl e, evs)"
    using h by (auto simp: Protocol_def child_value_required)
  then show "\<exists>e evs. Protocol l env node = (Inl e, evs)"
    by blast
next
  let ?inits = "filter (\<lambda>c. node_name c = ''init'') (node_children node)"
  assume h: "child node ''insert'' \<noteq> None \<and> child node ''delete'' \<noteq> None \<and> child node ''select'' \<noteq> None
       \<and> child node ''pending'' = None
       \<and> (\<forall>c\<in>set (node_children node). node_name c = ''init'' \<longrightarrow> exec env (init_sql l c) = None)"
  then have "\<forall>c\<in>set ?inits. exec env (init_sql l c) = None"
    by auto
  then have "init_loop l env ?inits = (None, map (\<lambda>c. Sql (init_sql l c)) ?inits)"
    by (rule init_loop_runs)
  then show "\<exists>pr evs. Protocol l env node = (Inr pr, evs) \<and> pending pr = Some []
          \<and> \<not> configured (pending pr)"
    using h by (auto simp: Protocol_def child_value_required child_value_optional configured_def)
qed


theorem construction_needs_templates_and_init_witness:
  "(\<exists>x\<in>{''insert'', ''delete'', ''select''}.
      Protocol demo_lib demo_env bare_node = (Inl (Exception (child_not_found x)), []))
   \<and> (\<exists>e evs. Protocol demo_lib failing_exec demo_node = (Inl e, evs))
   \<and> (\<exists>pr evs. Protocol demo_lib demo_env demo_node = (Inr pr, evs) \<and> pending pr = Some []
        \<and> \<not> configured (pending pr))"
proof -
  have a: "''delete'' \<in> {''insert'', ''delete'', ''select''} \<and> child bare_node ''delete'' = None"
    by (simp add: child_def bare_node_def)
  have b: "child demo_node ''insert'' \<noteq> None \<and> child demo_node ''delete'' \<noteq> None
      \<and> child demo_node ''select'' \<noteq> None
      \<and> (\<exists>c\<in>set (node_children demo_node). node_name c = ''init''
            \<and> exec failing_exec (init_sql demo_lib c) \<noteq> None)"
    by (simp add: child_def demo_node_def failing_exec_def)
  have c: "child demo_node ''insert'' \<noteq> None \<and> child demo_node ''delete'' \<noteq> None
      \<and> child demo_node ''select'' \<noteq> None \<and> child demo_node ''pending'' = None
      \<and> (\<forall>c\<in>set (node_children demo_node). node_name c = ''init''
            \<longrightarrow> exec demo_env (init_sql demo_lib c) = None)"
    by (simp add: child_def demo_node_def demo_env_def)
  note t1 = construction_needs_templates_and_init [of "''delete''" bare_node demo_lib demo_env]
  note t2 = construction_needs_templates_and_init [of "''delete''" demo_node demo_lib failing_exec]
  note t3 = construction_needs_templates_and_init [of "''delete''" demo_node demo_lib demo_env]
  have 1: "\<exists>x\<in>{''insert'', ''delete'', ''select''}.
      Protocol demo_lib demo_env bare_node = (Inl (Exception (child_not_found x)), [])"
    by (rule t1 [THEN conjunct1, THEN mp, OF a])
  have 2: "\<exists>e evs. Protocol demo_lib failing_exec demo_node = (Inl e, evs)"
    by (rule t2 [THEN conjunct2, THEN conjunct1, THEN mp, OF b])
  have 3: "\<exists>pr evs. Protocol demo_lib demo_env demo_node = (Inr pr, evs) \<and> pending pr = Some []
        \<and> \<not> configured (pending pr)"
    by (rule t3 [THEN conjunct2, THEN conjunct2, THEN mp, OF c])
  show ?thesis
    using 1 2 3 by (intro conjI)
qed

text \<open>
  C9. Without a pending query (a null or an empty template), \<open>count()\<close> returns 0
  and executes no SQL statement, whatever the store holds and whatever it would answer.
\<close>

theorem count_without_pending_query:
  "\<not> configured (pending p) \<Longrightarrow> count env p tbl = (Inr 0, [])"
  by (simp add: configured_def count_def split: option.splits)

theorem count_without_pending_query_witness:
  "count broken_env (demo_protocol\<lparr>pending := Some []\<rparr>) [row_a, row_b] = (Inr 0, [])
   \<and> count broken_env (demo_protocol\<lparr>pending := None\<rparr>) [row_a, row_b] = (Inr 0, [])"
  using count_without_pending_query [of "demo_protocol\<lparr>pending := Some []\<rparr>" broken_env "[row_a, row_b]"]
    count_without_pending_query [of "demo_protocol\<lparr>pending := None\<rparr>" broken_env "[row_a, row_b]"]
  by (simp add: configured_def)

text \<open>
  C10, at a failing input of the timer variant: the store fails on the select step
  and on the pending query. The timer callback sets \<open>busy\<close> and pushes the worker; the
  worker catches the exception of the sweep, then \<open>count()\<close> throws outside every \<open>try\<close>
  and the task ends before \<open>busy = false\<close>. The next timer callback finds \<open>busy\<close> set and
  pushes nothing. (In the guarded variant \<open>send()\<close> always leaves \<open>busy\<close> as it found
  it: \<open>send_restores_busy\<close>.)
\<close>

theorem worker_leaves_busy_set:
  "timer_callback demo_protocol (idle [row_a])
     = (True, (idle [row_a])\<lparr>trace := [Timer 5000], busy := True\<rparr>)
   \<and> worker broken_env demo_protocol [] ((idle [row_a])\<lparr>trace := [Timer 5000], busy := True\<rparr>)
     = (Some (Exception ''database is locked''),
        (idle [row_a])\<lparr>trace := [Timer 5000,
             Warn ''Error 'database is locked' while sending queued requests'',
             Sql ''select count(*) from queue''], busy := True\<rparr>)
   \<and> fst (timer_callback demo_protocol
        (snd (worker broken_env demo_protocol []
               ((idle [row_a])\<lparr>trace := [Timer 5000], busy := True\<rparr>)))) = False"
  by (simp add: broken_env_def demo_defs run_defs timer_callback_def worker_def worker_try_def
        worker_notify_def count_def configured_def)

end
